theory Spec2Isabelle
  imports Main "HOL-Library.Sublist"
begin

section \<open>Data model of CldrStForum.js\<close>

text \<open>
  Post objects live in the JavaScript heap and are shared by reference between the array
  handed to \<^verbatim>\<open>parseContent\<close>, the post index \<^verbatim>\<open>postHash\<close> and the per-thread arrays
  of \<^verbatim>\<open>threadHash\<close>; \<^verbatim>\<open>addThreadIds\<close> mutates them in place. The model therefore keeps an
  explicit store from references to post records, and the indices hold references.
\<close>

type_synonym ref = nat

text \<open>
  The JavaScript values that \<^verbatim>\<open>surveyUser === post.poster\<close> can compare: strict equality is
  equality of primitives and identity of objects, which is HOL equality on this type.
\<close>

datatype jsval = JUndefined | JNull | JNum int | JStr string | JObj ref

text \<open>
  The fields of a post that the indexing, threading and permission code reads. A subject may be
  missing (\<^verbatim>\<open>undefined\<close> or \<^verbatim>\<open>null\<close>); \<^verbatim>\<open>threadId\<close> is \<^verbatim>\<open>undefined\<close> until
  \<^verbatim>\<open>addThreadIds\<close> has set it; \<open>hasPosterInfo\<close> tells whether \<^verbatim>\<open>post.posterInfo\<close> is
  there. The fields \<^verbatim>\<open>id\<close> and \<^verbatim>\<open>locale\<close> are named \<open>postId\<close> and \<open>postLocale\<close>. The
  fields that only rendering reads (text, date, xpath, version, postType, and what is inside
  posterInfo) are not part of the model.
\<close>

record post =
  postId :: int
  parent :: int
  postLocale :: string
  subject :: "string option"
  status :: string
  poster :: jsval
  hasPosterInfo :: bool
  threadId :: "string option"

text \<open>
  The module-level variables. \<^verbatim>\<open>postHash\<close> is a JavaScript object keyed by the decimal string
  of the post id; that conversion is injective on integers, so the key is the integer itself.
  \<^verbatim>\<open>threadHash\<close> is keyed by the thread id string. No key of either object can be the name of a
  property inherited from \<^verbatim>\<open>Object.prototype\<close>: the first are numerals, the second contain
  a vertical bar or are the word undefined.
\<close>

record forum_state =
  forumLocale :: "string option"
  forumUpdateTime :: "nat option"
  postHash :: "int \<rightharpoonup> ref"
  threadHash :: "string \<rightharpoonup> ref list"
  heap :: "ref \<Rightarrow> post"

section \<open>Number to string\<close>

text \<open>
  \<^verbatim>\<open>firstPost.locale + "|" + firstPost.id\<close> converts the id to its decimal numeral (ids are
  integers far below the magnitude at which JavaScript switches to exponent notation).
\<close>

definition digitChars :: string where
  "digitChars = ''0123456789''"

function digitsOf :: "nat \<Rightarrow> string \<Rightarrow> string" where
  "digitsOf n acc =
     (if n div 10 = 0 then (digitChars ! n) # acc
      else digitsOf (n div 10) ((digitChars ! (n mod 10)) # acc))"
  by pat_completeness auto
termination
  by (relation "measure fst") auto

declare digitsOf.simps [simp del]

definition numberToString :: "int \<Rightarrow> string" where
  "numberToString i =
     (if 0 \<le> i then digitsOf (nat i) [] else CHR ''-'' # digitsOf (nat (- i)) [])"

section \<open>Indexing: updateForumData and its helpers\<close>

text \<open>
  \<^verbatim>\<open>while (post.parent >= 0 && postHash[post.parent]) post = postHash[post.parent];\<close>
  The loop need not end (a post may be its own ancestor in the index), so the result is an
  option and \<open>None\<close> stands for a walk that never returns.
\<close>

partial_function (option) getOldestPostInThread ::
  "(ref \<Rightarrow> post) \<Rightarrow> (int \<rightharpoonup> ref) \<Rightarrow> ref \<Rightarrow> ref option" where
  "getOldestPostInThread h ph r =
     (if 0 \<le> parent (h r) then
        (case ph (parent (h r)) of
           Some r' \<Rightarrow> getOldestPostInThread h ph r'
         | None \<Rightarrow> Some r)
      else Some r)"

fun updatePostHash :: "ref list \<Rightarrow> forum_state \<Rightarrow> forum_state" where
  "updatePostHash [] s = s"
| "updatePostHash (r # rs) s =
     updatePostHash rs (s\<lparr>postHash := (postHash s)(postId (heap s r) \<mapsto> r)\<rparr>)"

definition makeThreadId :: "post \<Rightarrow> string" where
  "makeThreadId firstPost = postLocale firstPost @ ''|'' @ numberToString (postId firstPost)"

fun addThreadIds :: "ref list \<Rightarrow> forum_state \<Rightarrow> forum_state option" where
  "addThreadIds [] s = Some s"
| "addThreadIds (r # rs) s =
     (case getOldestPostInThread (heap s) (postHash s) r of
        None \<Rightarrow> None
      | Some firstPost \<Rightarrow>
          addThreadIds rs
            (s\<lparr>heap := (heap s)
                 (r := (heap s r)\<lparr>threadId := Some (makeThreadId (heap s firstPost))\<rparr>)\<rparr>))"

text \<open>
  A property key is a string: reading \<^verbatim>\<open>threadHash[post.threadId]\<close> with an unset thread id
  uses the key \<^verbatim>\<open>"undefined"\<close>.
\<close>

definition threadKey :: "post \<Rightarrow> string" where
  "threadKey p = (case threadId p of None \<Rightarrow> ''undefined'' | Some t \<Rightarrow> t)"

fun updateThreadHash :: "ref list \<Rightarrow> forum_state \<Rightarrow> forum_state" where
  "updateThreadHash [] s = s"
| "updateThreadHash (r # rs) s =
     (let k = threadKey (heap s r);
          old = (case threadHash s k of None \<Rightarrow> [] | Some l \<Rightarrow> l)
      in updateThreadHash rs (s\<lparr>threadHash := (threadHash s)(k \<mapsto> old @ [r])\<rparr>))"

text \<open>\<open>now\<close> is the value of \<^verbatim>\<open>Date.now()\<close> at the call.\<close>

definition updateForumData :: "ref list \<Rightarrow> bool \<Rightarrow> nat \<Rightarrow> forum_state \<Rightarrow> forum_state option" where
  "updateForumData posts fullSet now s =
     (let s0 = (if fullSet then s\<lparr>postHash := Map.empty, threadHash := Map.empty\<rparr> else s);
          s1 = updatePostHash posts s0
      in case addThreadIds posts s1 of
           None \<Rightarrow> None
         | Some s2 \<Rightarrow> Some ((updateThreadHash posts s2)\<lparr>forumUpdateTime := Some now\<rparr>))"

definition setLocale :: "string \<Rightarrow> forum_state \<Rightarrow> forum_state" where
  "setLocale loc s =
     (if Some loc \<noteq> forumLocale s
      then s\<lparr>forumLocale := Some loc, forumUpdateTime := None, postHash := Map.empty\<rparr>
      else s)"

definition getThreadHash :: "ref list \<Rightarrow> nat \<Rightarrow> forum_state \<Rightarrow> ((string \<rightharpoonup> ref list) \<times> forum_state) option" where
  "getThreadHash posts now s =
     (case updateForumData posts True now s of
        None \<Rightarrow> None
      | Some s' \<Rightarrow> Some (threadHash s', s'))"

text \<open>
  \<^verbatim>\<open>threadHash[post.threadId][0]\<close>: reading index 0 of a missing array is a TypeError, of an
  empty array \<^verbatim>\<open>undefined\<close> (\<open>None\<close>).
\<close>

datatype error = TypeError | HierarchyRequestError

definition getNewestPostInThread :: "forum_state \<Rightarrow> post \<Rightarrow> error + ref option" where
  "getNewestPostInThread s p =
     (case threadHash s (threadKey p) of
        None \<Rightarrow> Inl TypeError
      | Some threadPosts \<Rightarrow> Inr (case threadPosts of [] \<Rightarrow> None | x # _ \<Rightarrow> Some x))"

section \<open>Root ancestors, stated independently of the loop\<close>

text \<open>
  The root ancestor of a post relative to an index: follow the parent link while the parent is
  a non-negative id present in the index.
\<close>

inductive rootAncestor :: "(ref \<Rightarrow> post) \<Rightarrow> (int \<rightharpoonup> ref) \<Rightarrow> ref \<Rightarrow> ref \<Rightarrow> bool"
  for h :: "ref \<Rightarrow> post" and idx :: "int \<rightharpoonup> ref" where
  root_here: "parent (h r) < 0 \<or> idx (parent (h r)) = None \<Longrightarrow> rootAncestor h idx r r"
| root_up: "0 \<le> parent (h r) \<Longrightarrow> idx (parent (h r)) = Some r' \<Longrightarrow> rootAncestor h idx r' q
            \<Longrightarrow> rootAncestor h idx r q"

text \<open>
  The same walk with the stopping rule in the words of the specification: stop at a post whose
  parent is -1 or whose parent is absent from the index.
\<close>

inductive rootAncestorSpec :: "(ref \<Rightarrow> post) \<Rightarrow> (int \<rightharpoonup> ref) \<Rightarrow> ref \<Rightarrow> ref \<Rightarrow> bool"
  for h :: "ref \<Rightarrow> post" and idx :: "int \<rightharpoonup> ref" where
  spec_root_here: "parent (h r) = -1 \<or> idx (parent (h r)) = None \<Longrightarrow> rootAncestorSpec h idx r r"
| spec_root_up: "parent (h r) \<noteq> -1 \<Longrightarrow> idx (parent (h r)) = Some r' \<Longrightarrow> rootAncestorSpec h idx r' q
            \<Longrightarrow> rootAncestorSpec h idx r q"

text \<open>The parent links of an index: a post points to the post indexed under its parent id.\<close>

definition parentLink :: "(ref \<Rightarrow> post) \<Rightarrow> (int \<rightharpoonup> ref) \<Rightarrow> (ref \<times> ref) set" where
  "parentLink h idx = {(r, r'). idx (parent (h r)) = Some r'}"

text \<open>No cycle of parent links can be reached from \<open>r\<close>.\<close>

definition noCycleFrom :: "(ref \<Rightarrow> post) \<Rightarrow> (int \<rightharpoonup> ref) \<Rightarrow> ref \<Rightarrow> bool" where
  "noCycleFrom h idx r = (\<forall>x. (r, x) \<in> (parentLink h idx)\<^sup>* \<longrightarrow> (x, x) \<notin> (parentLink h idx)\<^sup>+)"

section \<open>Subjects: post2text and makePostSubject\<close>

text \<open>
  \<^verbatim>\<open>out.replace(/pat/g, rep)\<close> for the literal, non-empty patterns that \<^verbatim>\<open>post2text\<close> uses:
  leftmost non-overlapping occurrences are replaced, and the replacement is not rescanned.
\<close>

fun replaceAll :: "string \<Rightarrow> string \<Rightarrow> string \<Rightarrow> string" where
  "replaceAll pat rep [] = []"
| "replaceAll pat rep (c # cs) =
     (if pat \<noteq> [] \<and> take (length pat) (c # cs) = pat
      then rep @ replaceAll pat rep (drop (length pat - 1) cs)
      else c # replaceAll pat rep cs)"

definition post2text :: "string option \<Rightarrow> string" where
  "post2text text =
     (let out0 = (case text of None \<Rightarrow> ''(empty)'' | Some t \<Rightarrow> t);
          out1 = replaceAll ''<p>'' [CHR 0x0A] out0;
          out2 = replaceAll ''&quot;'' [CHR 0x22] out1;
          out3 = replaceAll ''&lt;'' ''<'' out2;
          out4 = replaceAll ''&gt;'' ''>'' out3
      in replaceAll ''&amp;'' ''&'' out4)"

text \<open>
  \<^verbatim>\<open>subject.substring(0, 3) != 'Re:'\<close> compares the first three UTF-16 units with three ASCII
  characters; on the byte strings of the model \<open>take 3\<close> decides the same test.
\<close>

definition makePostSubject :: "bool \<Rightarrow> post option \<Rightarrow> string \<Rightarrow> string" where
  "makePostSubject isReply parentPost subjectParam =
     (if isReply then
        (case parentPost of
           Some pp \<Rightarrow>
             (let subj = post2text (subject pp)
              in if take 3 subj \<noteq> ''Re:'' then ''Re: '' @ subj else subj)
         | None \<Rightarrow> subjectParam)
      else subjectParam)"

section \<open>Permissions: getStatusOptions and its helpers\<close>

text \<open>
  The collaborators outside this file: the globals \<^verbatim>\<open>surveyUser\<close> (\<open>JUndefined\<close> when the
  variable is not defined) and \<^verbatim>\<open>surveyUserPerms.userIsTC\<close>, and the two functions of
  \<^verbatim>\<open>cldrStForumFilter\<close> that this file calls. They receive the posts themselves, so the model
  hands them the post records the references denote. \<open>objectId\<close> gives the \<^verbatim>\<open>id\<close> property
  of an object outside the post heap, which is how \<^verbatim>\<open>surveyUser.id\<close> is read.
\<close>

record env =
  surveyUser :: jsval
  objectId :: "ref \<Rightarrow> jsval"
  surveyUserIsTC :: bool
  passIfClosed :: "post list option \<Rightarrow> bool"
  getFilteredThreadIds :: "(string \<rightharpoonup> post list) \<Rightarrow> bool \<Rightarrow> string list"

definition userIsPoster :: "env \<Rightarrow> post option \<Rightarrow> bool" where
  "userIsPoster e p =
     (case p of
        None \<Rightarrow> False
      | Some q \<Rightarrow> surveyUser e \<noteq> JUndefined \<and> surveyUser e = poster q)"

text \<open>
  The poster test in the words of the specification, whose posts carry a poster id and whose
  user has an identity: the current user is the poster of a post when the user object's id is
  the post's poster id. This is the comparison the post heading makes with
  \<^verbatim>\<open>post.posterInfo.id === surveyUser.id\<close>.
\<close>

definition userIsPosterSpec :: "env \<Rightarrow> post \<Rightarrow> bool" where
  "userIsPosterSpec e p =
     (case surveyUser e of
        JObj u \<Rightarrow> objectId e u \<noteq> JUndefined \<and> objectId e u = poster p
      | _ \<Rightarrow> False)"

definition userIsTC :: "env \<Rightarrow> bool" where
  "userIsTC e = surveyUserIsTC e"

definition threadPostsOf :: "forum_state \<Rightarrow> string \<Rightarrow> post list option" where
  "threadPostsOf s k = map_option (map (heap s)) (threadHash s k)"

text \<open>\<^verbatim>\<open>firstPost.threadId\<close> on a null first post is a TypeError.\<close>

definition threadIsClosed :: "env \<Rightarrow> forum_state \<Rightarrow> post option \<Rightarrow> error + bool" where
  "threadIsClosed e s firstPost =
     (case firstPost of
        None \<Rightarrow> Inl TypeError
      | Some fp \<Rightarrow> Inr (passIfClosed e (threadPostsOf s (threadKey fp))))"

definition userCanClose :: "env \<Rightarrow> forum_state \<Rightarrow> bool \<Rightarrow> post option \<Rightarrow> error + bool" where
  "userCanClose e s isReply firstPost =
     (if \<not> isReply then Inr False
      else case threadIsClosed e s firstPost of
             Inl err \<Rightarrow> Inl err
           | Inr closed \<Rightarrow> Inr (\<not> closed \<and> (userIsPoster e firstPost \<or> userIsTC e)))"

text \<open>\<^verbatim>\<open>if (myValue ...)\<close> on a string or null: null and the empty string are falsy.\<close>

definition truthy :: "string option \<Rightarrow> bool" where
  "truthy v = (case v of None \<Rightarrow> False | Some t \<Rightarrow> t \<noteq> [])"

text \<open>
  The returned object, as the list of its (verb, label) properties in insertion order, which
  is the order \<^verbatim>\<open>Object.keys\<close> enumerates.
\<close>

definition getStatusOptions ::
  "env \<Rightarrow> forum_state \<Rightarrow> bool \<Rightarrow> post option \<Rightarrow> string option \<Rightarrow> error + (string \<times> string) list" where
  "getStatusOptions e s isReply firstPost myValue =
     (let o1 = (if truthy myValue \<and> \<not> isReply then [(''Request'', ''Request'')] else []);
          o2 = o1 @ [(''Discuss'', ''Discuss'')];
          o3 = o2 @
            (case firstPost of
               None \<Rightarrow> []
             | Some fp \<Rightarrow>
                 if isReply \<and> \<not> userIsPoster e firstPost \<and> status fp = ''Request''
                 then [(''Agree'', ''Agree''), (''Decline'', ''Decline'')] else [])
      in case userCanClose e s isReply firstPost of
           Inl err \<Rightarrow> Inl err
         | Inr canClose \<Rightarrow> Inr (if canClose then o3 @ [(''Close'', ''Close'')] else o3))"

section \<open>Rendering: the node hierarchy built by parseContent\<close>

text \<open>
  Of the DOM only the hierarchy is modelled: the document fragment that is returned, the thread
  count heading, one container per thread (the div with id \<^verbatim>\<open>"fthr_" + threadId\<close>), one div
  per post of the list (named by the post's position in the list), and the replies area of a
  node. Headings, links, texts and buttons inside a div are leaves and are left out.
  A call of \<^verbatim>\<open>parseContent\<close> creates all its nodes itself, so it starts from the empty
  hierarchy.
\<close>

datatype node =
  Fragment | CountEl | TopicDiv string | PostDiv nat | RepliesOf node | TextNode string

record dom =
  children :: "node \<Rightarrow> node list"
  replies :: "node \<rightharpoonup> node"
  countText :: "string option"

definition emptyDom :: dom where
  "emptyDom = \<lparr>children = (\<lambda>_. []), replies = Map.empty, countText = None\<rparr>"

text \<open>\<open>inSubtree ch n t\<close>: node \<open>t\<close> is \<open>n\<close> or one of its descendants.\<close>

inductive inSubtree :: "(node \<Rightarrow> node list) \<Rightarrow> node \<Rightarrow> node \<Rightarrow> bool"
  for ch :: "node \<Rightarrow> node list" where
  subtree_self: "inSubtree ch n n"
| subtree_child: "c \<in> set (ch n) \<Longrightarrow> inSubtree ch c t \<Longrightarrow> inSubtree ch n t"

text \<open>
  \<^verbatim>\<open>target.appendChild(child)\<close>: a TypeError when the target or the child is
  \<^verbatim>\<open>undefined\<close>, a HierarchyRequestError when the child contains the target; otherwise the
  child is taken out of the place where it is and becomes the last child of the target.
\<close>

definition moveUnder :: "node \<Rightarrow> node \<Rightarrow> (node \<Rightarrow> node list) \<Rightarrow> node \<Rightarrow> node list" where
  "moveUnder t c ch = (\<lambda>x. if x = t then removeAll c (ch x) @ [c] else removeAll c (ch x))"

definition appendChild :: "node option \<Rightarrow> node option \<Rightarrow> dom \<Rightarrow> error + dom" where
  "appendChild target child d =
     (case target of
        None \<Rightarrow> Inl TypeError
      | Some t \<Rightarrow>
          (case child of
             None \<Rightarrow> Inl TypeError
           | Some c \<Rightarrow>
               if inSubtree (children d) c t then Inl HierarchyRequestError
               else Inr (d\<lparr>children := moveUnder t c (children d)\<rparr>)))"

text \<open>
  \<^verbatim>\<open>forumDiv.append(x)\<close>: as \<^verbatim>\<open>appendChild\<close> for a node; a value that is not a node is
  converted to a new text node, so \<^verbatim>\<open>undefined\<close> appends the text "undefined".
\<close>

definition appendAny :: "node \<Rightarrow> node option \<Rightarrow> dom \<Rightarrow> error + dom" where
  "appendAny t x d =
     (case x of
        None \<Rightarrow> Inr (d\<lparr>children := (children d)(t := children d t @ [TextNode ''undefined''])\<rparr>)
      | Some c \<Rightarrow> appendChild (Some t) (Some c) d)"

record parse_opts =
  showItemLink :: bool
  showReplyButton :: bool
  fullSet :: bool
  applyFilter :: bool
  showThreadCount :: bool
  createDomElements :: bool

definition getDefaultParseOptions :: parse_opts where
  "getDefaultParseOptions =
     \<lparr>showItemLink = False, showReplyButton = False, fullSet = True, applyFilter = False,
      showThreadCount = False, createDomElements = True\<rparr>"

definition getOptionsForContext :: "string \<Rightarrow> parse_opts" where
  "getOptionsForContext context =
     (let opts = getDefaultParseOptions
      in if context = ''main'' then
           opts\<lparr>showItemLink := True, showReplyButton := True, applyFilter := True,
                showThreadCount := True\<rparr>
         else if context = ''summary'' then opts\<lparr>applyFilter := True, createDomElements := False\<rparr>
         else if context = ''info'' then opts\<lparr>showReplyButton := True\<rparr>
         else if context = ''parent'' then opts\<lparr>fullSet := False\<rparr>
         else opts)"

text \<open>
  \<^verbatim>\<open>firstPost.subject.indexOf('|')\<close> is a TypeError when the subject is missing; everything
  else in \<^verbatim>\<open>addThreadSubjectSpan\<close> builds leaves.
\<close>

definition addThreadSubjectSpan :: "post \<Rightarrow> error + unit" where
  "addThreadSubjectSpan firstPost =
     (case subject firstPost of None \<Rightarrow> Inl TypeError | Some _ \<Rightarrow> Inr ())"

text \<open>
  The first loop of \<^verbatim>\<open>parseContent\<close>: one container per thread key met in the list. With
  \<^verbatim>\<open>showItemLink\<close> a new container gets the thread's subject, looked up through
  \<^verbatim>\<open>getOldestPostInThread\<close>. The outer option is \<open>None\<close> when that walk does not return.
\<close>

fun makeTopicDivs ::
  "forum_state \<Rightarrow> bool \<Rightarrow> ref list \<Rightarrow> (string \<rightharpoonup> node) \<Rightarrow> (error + (string \<rightharpoonup> node)) option" where
  "makeTopicDivs s showLink [] topicDivs = Some (Inr topicDivs)"
| "makeTopicDivs s showLink (r # rs) topicDivs =
     (let k = threadKey (heap s r)
      in if topicDivs k = None then
           (if showLink then
              (case getOldestPostInThread (heap s) (postHash s) r of
                 None \<Rightarrow> None
               | Some firstPost \<Rightarrow>
                   (case addThreadSubjectSpan (heap s firstPost) of
                      Inl err \<Rightarrow> Some (Inl err)
                    | Inr _ \<Rightarrow> makeTopicDivs s showLink rs (topicDivs(k \<mapsto> TopicDiv k))))
            else makeTopicDivs s showLink rs (topicDivs(k \<mapsto> TopicDiv k)))
         else makeTopicDivs s showLink rs topicDivs)"

text \<open>
  \<^verbatim>\<open>addReplyButtons\<close> looks up the first post and asks \<^verbatim>\<open>getStatusOptions\<close> for the verbs;
  the buttons themselves are leaves.
\<close>

definition addReplyButtons :: "env \<Rightarrow> forum_state \<Rightarrow> ref \<Rightarrow> (error + unit) option" where
  "addReplyButtons e s r =
     (case getOldestPostInThread (heap s) (postHash s) r of
        None \<Rightarrow> None
      | Some firstPost \<Rightarrow>
          (case getStatusOptions e s True (Some (heap s firstPost)) None of
             Inl err \<Rightarrow> Some (Inl err)
           | Inr _ \<Rightarrow> Some (Inr ())))"

text \<open>
  The second loop: the div of the post at position \<open>num\<close> is stored under the post's id, and
  the newest post of a thread gets reply buttons when the context asks for them. For a post
  with poster info the heading evaluates \<^verbatim>\<open>typeof surveyUser !== 'undefined' &&
  post.posterInfo.id === surveyUser.id\<close>, a TypeError when \<^verbatim>\<open>surveyUser\<close> is null.
\<close>

fun makePostDivs ::
  "env \<Rightarrow> forum_state \<Rightarrow> bool \<Rightarrow> ref list \<Rightarrow> nat \<Rightarrow> (int \<rightharpoonup> node) \<Rightarrow> (error + (int \<rightharpoonup> node)) option" where
  "makePostDivs e s showReply [] num postDivs = Some (Inr postDivs)"
| "makePostDivs e s showReply (r # rs) num postDivs =
     (let postDivs' = postDivs(postId (heap s r) \<mapsto> PostDiv num)
      in if hasPosterInfo (heap s r) \<and> surveyUser e = JNull then Some (Inl TypeError)
         else if showReply then
           (case getNewestPostInThread s (heap s r) of
              Inl err \<Rightarrow> Some (Inl err)
            | Inr newest \<Rightarrow>
                if newest = Some r then
                  (case addReplyButtons e s r of
                     None \<Rightarrow> None
                   | Some (Inl err) \<Rightarrow> Some (Inl err)
                   | Some (Inr _) \<Rightarrow> makePostDivs e s showReply rs (Suc num) postDivs')
                else makePostDivs e s showReply rs (Suc num) postDivs')
         else makePostDivs e s showReply rs (Suc num) postDivs')"

text \<open>The third loop: one post is put under its parent's replies area or under its thread.\<close>

definition reparentPost ::
  "(ref \<Rightarrow> post) \<Rightarrow> (int \<rightharpoonup> node) \<Rightarrow> (string \<rightharpoonup> node) \<Rightarrow> ref \<Rightarrow> dom \<Rightarrow> error + dom" where
  "reparentPost h postDivs topicDivs r d =
     (let p = h r
      in if parent p \<noteq> -1 then
           (case postDivs (parent p) of
              Some pdiv \<Rightarrow>
                (case (case replies d pdiv of
                         None \<Rightarrow> appendChild (Some pdiv) (Some (RepliesOf pdiv))
                                   (d\<lparr>replies := (replies d)(pdiv \<mapsto> RepliesOf pdiv)\<rparr>)
                       | Some _ \<Rightarrow> Inr d) of
                   Inl err \<Rightarrow> Inl err
                 | Inr d1 \<Rightarrow> appendChild (replies d1 pdiv) (postDivs (postId p)) d1)
            | None \<Rightarrow> appendChild (topicDivs (threadKey p)) (postDivs (postId p)) d)
         else appendChild (topicDivs (threadKey p)) (postDivs (postId p)) d)"

fun reparentPosts ::
  "(ref \<Rightarrow> post) \<Rightarrow> (int \<rightharpoonup> node) \<Rightarrow> (string \<rightharpoonup> node) \<Rightarrow> ref list \<Rightarrow> dom \<Rightarrow> error + dom" where
  "reparentPosts h postDivs topicDivs [] d = Inr d"
| "reparentPosts h postDivs topicDivs (r # rs) d =
     (case reparentPost h postDivs topicDivs r d of
        Inl err \<Rightarrow> Inl err
      | Inr d' \<Rightarrow> reparentPosts h postDivs topicDivs rs d')"

text \<open>
  The loop of \<^verbatim>\<open>filterAndAssembleForumThreads\<close>, with its three variables: the thread ids not
  yet appended, the thread count and the hierarchy. \<^verbatim>\<open>filteredArray.includes(post.threadId)\<close>
  compares with strict equality, so an unset thread id is never included.
\<close>

fun assembleThreads ::
  "(ref \<Rightarrow> post) \<Rightarrow> (string \<rightharpoonup> node) \<Rightarrow> ref list \<Rightarrow> string list \<Rightarrow> nat \<Rightarrow> dom
     \<Rightarrow> error + (string list \<times> nat \<times> dom)" where
  "assembleThreads h topicDivs [] filteredArray threadCount d = Inr (filteredArray, threadCount, d)"
| "assembleThreads h topicDivs (r # rs) filteredArray threadCount d =
     (case threadId (h r) of
        None \<Rightarrow> assembleThreads h topicDivs rs filteredArray threadCount d
      | Some t \<Rightarrow>
          if t \<in> set filteredArray then
            (case appendAny Fragment (topicDivs t) d of
               Inl err \<Rightarrow> Inl err
             | Inr d' \<Rightarrow>
                 assembleThreads h topicDivs rs (filter (\<lambda>i. i \<noteq> t) filteredArray)
                   (Suc threadCount) d')
          else assembleThreads h topicDivs rs filteredArray threadCount d)"

text \<open>
  \<^verbatim>\<open>document.createDocumentFragment()\<close> and \<^verbatim>\<open>document.createElement('h4')\<close> make new nodes:
  they have no children and are nobody's child.
\<close>

definition createNode :: "node \<Rightarrow> dom \<Rightarrow> dom" where
  "createNode n d = d\<lparr>children := (\<lambda>x. if x = n then [] else removeAll n (children d x))\<rparr>"

definition filterAndAssembleForumThreads ::
  "env \<Rightarrow> forum_state \<Rightarrow> ref list \<Rightarrow> (string \<rightharpoonup> node) \<Rightarrow> bool \<Rightarrow> bool \<Rightarrow> dom \<Rightarrow> error + dom" where
  "filterAndAssembleForumThreads e s posts topicDivs applyFlt showCount d =
     (let filteredArray = getFilteredThreadIds e (threadPostsOf s) applyFlt;
          d0 = createNode Fragment d
      in case (if showCount then appendChild (Some Fragment) (Some CountEl) (createNode CountEl d0)
               else Inr d0) of
           Inl err \<Rightarrow> Inl err
         | Inr d1 \<Rightarrow>
             (case assembleThreads (heap s) topicDivs posts filteredArray 0 d1 of
                Inl err \<Rightarrow> Inl err
              | Inr (rest, threadCount, d2) \<Rightarrow>
                  Inr (if showCount then
                         d2\<lparr>countText := Some (digitsOf threadCount [] @
                               (if threadCount = 1 then '' thread'' else '' threads''))\<rparr>
                       else d2)))"

text \<open>
  \<^verbatim>\<open>parseContent\<close> returns the assembled hierarchy or throws; the indices keep what
  \<^verbatim>\<open>updateForumData\<close> wrote in either case. \<open>None\<close>: the call does not return.
\<close>

definition parseContent ::
  "env \<Rightarrow> ref list \<Rightarrow> string \<Rightarrow> nat \<Rightarrow> forum_state \<Rightarrow> ((error + dom) \<times> forum_state) option" where
  "parseContent e posts context now s =
     (let opts = getOptionsForContext context
      in case updateForumData posts (fullSet opts) now s of
           None \<Rightarrow> None
         | Some s1 \<Rightarrow>
             (case makeTopicDivs s1 (showItemLink opts) posts Map.empty of
                None \<Rightarrow> None
              | Some (Inl err) \<Rightarrow> Some (Inl err, s1)
              | Some (Inr topicDivs) \<Rightarrow>
                  (case makePostDivs e s1 (showReplyButton opts) posts 0 Map.empty of
                     None \<Rightarrow> None
                   | Some (Inl err) \<Rightarrow> Some (Inl err, s1)
                   | Some (Inr postDivs) \<Rightarrow>
                       (case reparentPosts (heap s1) postDivs topicDivs posts emptyDom of
                          Inl err \<Rightarrow> Some (Inl err, s1)
                        | Inr d \<Rightarrow>
                            Some (filterAndAssembleForumThreads e s1 posts topicDivs
                                    (applyFilter opts) (showThreadCount opts) d, s1)))))"

section \<open>Closed forms of the indexing loops\<close>

text \<open>The index that \<^verbatim>\<open>updatePostHash\<close> builds on top of \<open>ph\<close>: a later post of the list wins.\<close>

fun indexPosts :: "(ref \<Rightarrow> post) \<Rightarrow> ref list \<Rightarrow> (int \<rightharpoonup> ref) \<Rightarrow> (int \<rightharpoonup> ref)" where
  "indexPosts h [] ph = ph"
| "indexPosts h (r # rs) ph = indexPosts h rs (ph(postId (h r) \<mapsto> r))"

definition threadIdOf :: "(ref \<Rightarrow> post) \<Rightarrow> (int \<rightharpoonup> ref) \<Rightarrow> ref \<Rightarrow> string option" where
  "threadIdOf h ph r = map_option (\<lambda>q. makeThreadId (h q)) (getOldestPostInThread h ph r)"

definition withThreadIds :: "(ref \<Rightarrow> post) \<Rightarrow> (int \<rightharpoonup> ref) \<Rightarrow> ref list \<Rightarrow> ref \<Rightarrow> post" where
  "withThreadIds h ph rs = (\<lambda>x. if x \<in> set rs then (h x)\<lparr>threadId := threadIdOf h ph x\<rparr> else h x)"

definition groupThreads ::
  "(ref \<Rightarrow> post) \<Rightarrow> ref list \<Rightarrow> (string \<rightharpoonup> ref list) \<Rightarrow> (string \<rightharpoonup> ref list)" where
  "groupThreads h rs th =
     (\<lambda>k. if filter (\<lambda>r. threadKey (h r) = k) rs = [] then th k
          else Some ((case th k of None \<Rightarrow> [] | Some l \<Rightarrow> l) @ filter (\<lambda>r. threadKey (h r) = k) rs))"

text \<open>
  The steps that the walk of \<^verbatim>\<open>getOldestPostInThread\<close> can take from posts reachable from
  \<open>r\<close>, each step as the pair (next post, post).
\<close>

definition walkRel :: "(ref \<Rightarrow> post) \<Rightarrow> (int \<rightharpoonup> ref) \<Rightarrow> ref \<Rightarrow> (ref \<times> ref) set" where
  "walkRel h idx r = {(b, a). (r, a) \<in> (parentLink h idx)\<^sup>* \<and> (a, b) \<in> parentLink h idx}"

section \<open>The order of the assembled threads\<close>

text \<open>
  The position, in a post list, of the first post of thread \<open>k\<close>; in a newest-first list this
  is the recency rank of the thread's newest post.
\<close>

definition threadPosition :: "(ref \<Rightarrow> post) \<Rightarrow> ref list \<Rightarrow> string \<Rightarrow> nat" where
  "threadPosition h posts k = length (takeWhile (\<lambda>r. threadId (h r) \<noteq> Some k) posts)"

text \<open>The thread ids in the order in which the assembling loop appends their containers.\<close>

fun assembledIds :: "(ref \<Rightarrow> post) \<Rightarrow> ref list \<Rightarrow> string list \<Rightarrow> string list" where
  "assembledIds h [] flt = []"
| "assembledIds h (r # rs) flt =
     (case threadId (h r) of
        None \<Rightarrow> assembledIds h rs flt
      | Some t \<Rightarrow>
          if t \<in> set flt then t # assembledIds h rs (filter (\<lambda>i. i \<noteq> t) flt)
          else assembledIds h rs flt)"

section \<open>Closed forms of the rendering loops\<close>

text \<open>The containers after the first loop, and the post divs after the second.\<close>

definition topicDivsOf :: "(ref \<Rightarrow> post) \<Rightarrow> ref list \<Rightarrow> (string \<rightharpoonup> node) \<Rightarrow> (string \<rightharpoonup> node)" where
  "topicDivsOf h rs td =
     (\<lambda>k. if td k = None \<and> k \<in> (\<lambda>r. threadKey (h r)) ` set rs then Some (TopicDiv k) else td k)"

fun postDivsOf :: "(ref \<Rightarrow> post) \<Rightarrow> ref list \<Rightarrow> nat \<Rightarrow> (int \<rightharpoonup> node) \<Rightarrow> (int \<rightharpoonup> node)" where
  "postDivsOf h [] num pd = pd"
| "postDivsOf h (r # rs) num pd = postDivsOf h rs (Suc num) (pd(postId (h r) \<mapsto> PostDiv num))"

text \<open>While the third loop runs, no container is the child of a node.\<close>

definition topicsAreRoots :: "dom \<Rightarrow> bool" where
  "topicsAreRoots d = (\<forall>x k. TopicDiv k \<notin> set (children d x))"

section \<open>Example states\<close>

definition blankPost :: post where
  "blankPost = \<lparr>postId = 0, parent = -1, postLocale = '''', subject = None, status = '''',
                poster = JUndefined, hasPosterInfo = True, threadId = None\<rparr>"

definition emptyState :: forum_state where
  "emptyState = \<lparr>forumLocale = None, forumUpdateTime = None, postHash = Map.empty,
                 threadHash = Map.empty, heap = (\<lambda>_. blankPost)\<rparr>"

text \<open>The post list of the specification's example: post 5 is a root, post 9 replies to it.\<close>

definition frHeap :: "ref \<Rightarrow> post" where
  "frHeap = (\<lambda>_. blankPost)
     (0 := blankPost\<lparr>postId := 5, parent := -1, postLocale := ''fr''\<rparr>,
      1 := blankPost\<lparr>postId := 9, parent := 5, postLocale := ''fr''\<rparr>)"

definition frState :: forum_state where
  "frState = emptyState\<lparr>heap := frHeap\<rparr>"


text \<open>
  Two posts with negative numbers in the id fields: post -2 is a root, post 9 names -2 as its
  parent.
\<close>

definition negHeap :: "ref \<Rightarrow> post" where
  "negHeap = (\<lambda>_. blankPost)
     (0 := blankPost\<lparr>postId := -2, parent := -1, postLocale := ''fr''\<rparr>,
      1 := blankPost\<lparr>postId := 9, parent := -2, postLocale := ''de''\<rparr>)"

definition negState :: forum_state where
  "negState = emptyState\<lparr>heap := negHeap\<rparr>"

text \<open>A post that names itself as its parent.\<close>

definition selfHeap :: "ref \<Rightarrow> post" where
  "selfHeap = (\<lambda>_. blankPost)(0 := blankPost\<lparr>postId := 5, parent := 5, postLocale := ''fr''\<rparr>)"

text \<open>
  Two threads, newest post first: post 12 and post 9 reply to post 5, post 11 opens a thread
  of its own.
\<close>

definition mixHeap :: "ref \<Rightarrow> post" where
  "mixHeap = (\<lambda>_. blankPost)
     (0 := blankPost\<lparr>postId := 12, parent := 5, postLocale := ''fr''\<rparr>,
      1 := blankPost\<lparr>postId := 11, parent := -1, postLocale := ''de''\<rparr>,
      2 := blankPost\<lparr>postId := 9, parent := 5, postLocale := ''fr''\<rparr>,
      3 := blankPost\<lparr>postId := 5, parent := -1, postLocale := ''fr''\<rparr>)"

definition mixState :: forum_state where
  "mixState = emptyState\<lparr>heap := mixHeap\<rparr>"

text \<open>
  A reply whose parent, post 5, is not in the list, followed by an older thread; and the same
  reply followed by a second post with the same id.
\<close>

definition orphanHeap :: "ref \<Rightarrow> post" where
  "orphanHeap = (\<lambda>_. blankPost)
     (0 := blankPost\<lparr>postId := 9, parent := 5, postLocale := ''fr'', subject := Some ''Re: a | b''\<rparr>,
      1 := blankPost\<lparr>postId := 3, parent := -1, postLocale := ''fr'', subject := Some ''c | d''\<rparr>)"

definition orphanState :: forum_state where
  "orphanState = emptyState\<lparr>heap := orphanHeap\<rparr>"

definition orphanIndexed :: forum_state where
  "orphanIndexed = the (updateForumData [0, 1] True 7 orphanState)"

definition twinHeap :: "ref \<Rightarrow> post" where
  "twinHeap = (\<lambda>_. blankPost)
     (0 := blankPost\<lparr>postId := 1, parent := 99, postLocale := ''fr''\<rparr>,
      1 := blankPost\<lparr>postId := 1, parent := -1, postLocale := ''de''\<rparr>)"

definition twinState :: forum_state where
  "twinState = emptyState\<lparr>heap := twinHeap\<rparr>"

definition mixIndexed :: forum_state where
  "mixIndexed = the (updateForumData [0, 1, 2, 3] True 7 mixState)"

definition mixTopicDivs :: "string \<rightharpoonup> node" where
  "mixTopicDivs = [''fr|5'' \<mapsto> TopicDiv ''fr|5'', ''de|11'' \<mapsto> TopicDiv ''de|11'']"

definition orphanTopicDivs :: "string \<rightharpoonup> node" where
  "orphanTopicDivs = [''fr|9'' \<mapsto> TopicDiv ''fr|9'', ''fr|3'' \<mapsto> TopicDiv ''fr|3'']"

definition orphanPostDivs :: "int \<rightharpoonup> node" where
  "orphanPostDivs = [9 \<mapsto> PostDiv 0, 3 \<mapsto> PostDiv 1]"

definition twinIndexed :: forum_state where
  "twinIndexed = the (updateForumData [0, 1] True 7 twinState)"

definition twinTopicDivs :: "string \<rightharpoonup> node" where
  "twinTopicDivs = [''fr|1'' \<mapsto> TopicDiv ''fr|1'', ''de|1'' \<mapsto> TopicDiv ''de|1'']"

definition twinPostDivs :: "int \<rightharpoonup> node" where
  "twinPostDivs = [1 \<mapsto> PostDiv 1]"

text \<open>A thread opened by user 7 with a request, as the index holds it once threaded.\<close>

definition requestPost :: post where
  "requestPost = blankPost\<lparr>postId := 5, postLocale := ''fr'', subject := Some ''Re:x'',
                   status := ''Request'', poster := JNum 7, threadId := Some ''fr|5''\<rparr>"

text \<open>
  An environment: the user global, the committee flag, a filter module that reports every
  thread as closed or as open, and that lets the given thread ids pass.
\<close>

definition exampleEnv :: "jsval \<Rightarrow> bool \<Rightarrow> bool \<Rightarrow> string list \<Rightarrow> env" where
  "exampleEnv user tc closed passing =
     \<lparr>surveyUser = user, objectId = (\<lambda>_. JUndefined), surveyUserIsTC = tc,
      passIfClosed = (\<lambda>_. closed), getFilteredThreadIds = (\<lambda>_ _. passing)\<rparr>"

text \<open>
  A session of the user with id 7, who is not a committee member: the user global is the user
  object. Every thread is open.
\<close>

definition sessionEnv :: env where
  "sessionEnv = (exampleEnv (JObj 0) False False [])\<lparr>objectId := (\<lambda>_. JUndefined)(0 := JNum 7)\<rparr>"

text \<open>The condition under which the code offers Agree and Decline.\<close>

definition mayAgree :: "env \<Rightarrow> bool \<Rightarrow> post option \<Rightarrow> bool" where
  "mayAgree e isReply firstPost =
     (isReply \<and> (\<exists>fp. firstPost = Some fp \<and> status fp = ''Request'' \<and>
                 \<not> (surveyUser e \<noteq> JUndefined \<and> surveyUser e = poster fp)))"

section \<open>Evaluation on concrete inputs\<close>

lemmas eval_defs = updateForumData_def frState_def emptyState_def frHeap_def blankPost_def
  getOldestPostInThread.simps makeThreadId_def numberToString_def digitsOf.simps digitChars_def
  threadKey_def Let_def

section \<open>The walk to the first post\<close>

lemma getOldest_rootAncestor:
  "getOldestPostInThread h ph r = Some q \<Longrightarrow> rootAncestor h ph r q"
proof (rule getOldestPostInThread.raw_induct [where P = "rootAncestor"], goal_cases)
  case (1 f h ph r q)
  show ?case
  proof (cases "0 \<le> parent (h r)")
    case True
    show ?thesis
    proof (cases "ph (parent (h r))")
      case None
      with True 1(3) show ?thesis by (auto intro: rootAncestor.intros)
    next
      case (Some r')
      with True 1(3) have "f h ph r' = Some q" by simp
      then have "rootAncestor h ph r' q" by (rule 1(2))
      with True Some show ?thesis by (auto intro: rootAncestor.intros)
    qed
  next
    case False
    with 1(3) show ?thesis by (auto intro: rootAncestor.intros)
  qed
qed

lemma rootAncestor_getOldest:
  assumes "rootAncestor h ph r q"
  shows "getOldestPostInThread h ph r = Some q"
  using assms
proof (induction rule: rootAncestor.induct)
  case (root_here r)
  then show ?case by (auto simp: getOldestPostInThread.simps [of h ph r])
next
  case (root_up r r' q)
  then show ?case by (simp add: getOldestPostInThread.simps [of h ph r])
qed

lemma getOldest_iff: "getOldestPostInThread h ph r = Some q \<longleftrightarrow> rootAncestor h ph r q"
  using getOldest_rootAncestor rootAncestor_getOldest by blast

lemma rootAncestor_same_parents:
  assumes "rootAncestor h ph r q" and "\<And>x. parent (h' x) = parent (h x)"
  shows "rootAncestor h' ph r q"
  using assms(1)
proof (induction rule: rootAncestor.induct)
  case (root_here r)
  then show ?case by (simp add: rootAncestor.root_here assms(2))
next
  case (root_up r r' q)
  then show ?case by (simp add: rootAncestor.root_up assms(2))
qed

lemma getOldest_same_parents:
  assumes "\<And>x. parent (h' x) = parent (h x)"
  shows "getOldestPostInThread h' ph r = getOldestPostInThread h ph r"
proof (cases "getOldestPostInThread h ph r")
  case None
  show ?thesis
  proof (cases "getOldestPostInThread h' ph r")
    case None
    with \<open>getOldestPostInThread h ph r = None\<close> show ?thesis by simp
  next
    case (Some q)
    then have "rootAncestor h' ph r q" by (rule getOldest_rootAncestor)
    then have "rootAncestor h ph r q"
      by (rule rootAncestor_same_parents) (simp add: assms)
    then have "getOldestPostInThread h ph r = Some q" by (rule rootAncestor_getOldest)
    with None show ?thesis by simp
  qed
next
  case (Some q)
  then have "rootAncestor h ph r q" by (rule getOldest_rootAncestor)
  then have "rootAncestor h' ph r q"
    by (rule rootAncestor_same_parents) (simp add: assms)
  then have "getOldestPostInThread h' ph r = Some q" by (rule rootAncestor_getOldest)
  with Some show ?thesis by simp
qed

lemma walkRel_finite:
  assumes "finite (dom idx)"
  shows "finite (walkRel h idx r)"
proof -
  have "finite (ran idx)" using assms by (rule finite_ran)
  moreover have "walkRel h idx r \<subseteq> ran idx \<times> (insert r (ran idx))"
  proof
    fix p assume p: "p \<in> walkRel h idx r"
    obtain b a where ba: "p = (b, a)" by (cases p)
    with p have ra: "(r, a) \<in> (parentLink h idx)\<^sup>*" and ab: "(a, b) \<in> parentLink h idx"
      by (simp_all add: walkRel_def)
    from ab have "b \<in> ran idx" by (auto simp: parentLink_def ran_def)
    moreover from ra have "a = r \<or> a \<in> ran idx"
      by (cases rule: rtrancl.cases) (auto simp: parentLink_def ran_def)
    ultimately show "p \<in> ran idx \<times> (insert r (ran idx))" using ba by auto
  qed
  ultimately show ?thesis by (meson finite_SigmaI finite_insert finite_subset)
qed

lemma walkRel_trancl:
  "(x, y) \<in> (walkRel h idx r)\<^sup>+ \<Longrightarrow> (y, x) \<in> (parentLink h idx)\<^sup>+ \<and> (r, y) \<in> (parentLink h idx)\<^sup>*"
proof (induction rule: trancl_induct)
  case (base y)
  then show ?case by (auto simp: walkRel_def)
next
  case (step y z)
  then have "(z, y) \<in> parentLink h idx" and "(r, z) \<in> (parentLink h idx)\<^sup>*"
    by (auto simp: walkRel_def)
  with step.IH show ?case
    by (meson trancl_into_trancl2)
qed

lemma walkRel_acyclic:
  assumes "noCycleFrom h idx r"
  shows "acyclic (walkRel h idx r)"
proof (rule acyclicI, rule allI, rule notI)
  fix x assume "(x, x) \<in> (walkRel h idx r)\<^sup>+"
  then have "(x, x) \<in> (parentLink h idx)\<^sup>+ \<and> (r, x) \<in> (parentLink h idx)\<^sup>*"
    by (rule walkRel_trancl)
  with assms show False unfolding noCycleFrom_def by blast
qed

text \<open>
  The walk returns: the steps it can take from the posts reachable from \<open>r\<close> form a finite
  relation without cycles, hence a well-founded one.
\<close>

lemma getOldest_returns:
  assumes "finite (dom idx)" and "noCycleFrom h idx r"
  shows "\<exists>q. getOldestPostInThread h idx r = Some q"
proof -
  have wf: "wf (walkRel h idx r)"
    using walkRel_finite [OF assms(1)] walkRel_acyclic [OF assms(2)]
    by (rule finite_acyclic_wf)
  have "(r, a) \<in> (parentLink h idx)\<^sup>* \<longrightarrow> (\<exists>q. getOldestPostInThread h idx a = Some q)" for a
    using wf
  proof (induction a rule: wf_induct_rule)
    case (less a)
    show ?case
    proof
      assume ra: "(r, a) \<in> (parentLink h idx)\<^sup>*"
      show "\<exists>q. getOldestPostInThread h idx a = Some q"
      proof (cases "0 \<le> parent (h a)")
        case False
        then show ?thesis by (simp add: getOldestPostInThread.simps [of h idx a])
      next
        case True
        show ?thesis
        proof (cases "idx (parent (h a))")
          case None
          with True show ?thesis by (simp add: getOldestPostInThread.simps [of h idx a])
        next
          case (Some b)
          then have ab: "(a, b) \<in> parentLink h idx" by (simp add: parentLink_def)
          with ra have "(b, a) \<in> walkRel h idx r" by (simp add: walkRel_def)
          moreover from ra ab have "(r, b) \<in> (parentLink h idx)\<^sup>*" by (rule rtrancl_into_rtrancl)
          ultimately have "\<exists>q. getOldestPostInThread h idx b = Some q"
            using less.IH by blast
          with True Some show ?thesis by (simp add: getOldestPostInThread.simps [of h idx a])
        qed
      qed
    qed
  qed
  then show ?thesis by blast
qed

text \<open>
  C9. With a finite index (a JavaScript object has finitely many properties) and no cycle of
  parent links reachable from the starting post, \<^verbatim>\<open>getOldestPostInThread\<close> returns.
\<close>

theorem getOldestPostInThread_terminates:
  assumes "finite (dom idx)" and "noCycleFrom h idx r"
  shows "\<exists>q. getOldestPostInThread h idx r = Some q"
  using assms by (rule getOldest_returns)

lemma trancl_one_edge:
  assumes "(x, y) \<in> {(a, b)}\<^sup>+" and "a \<noteq> b"
  shows "x = a \<and> y = b"
  using assms(1)
proof (induction rule: trancl_induct)
  case (base y)
  then show ?case by simp
next
  case (step y z)
  with assms(2) show ?case by simp
qed

lemma parentLink_frHeap: "parentLink frHeap [5 \<mapsto> 0] = {(1, 0)}"
  by (auto simp: parentLink_def frHeap_def blankPost_def split: if_splits)

text \<open>Post 9 of the example: its parent link leads to post 5, where the walk stops.\<close>

theorem getOldestPostInThread_terminates_witness:
  "finite (dom [5 \<mapsto> (0::nat)]) \<and> noCycleFrom frHeap [5 \<mapsto> 0] 1 \<and>
   (\<exists>q. getOldestPostInThread frHeap [5 \<mapsto> 0] 1 = Some q) \<and>
   getOldestPostInThread frHeap [5 \<mapsto> 0] 1 = Some 0"
proof -
  have f: "finite (dom [5 \<mapsto> (0::nat)])" by simp
  have n: "noCycleFrom frHeap [5 \<mapsto> 0] 1"
    unfolding noCycleFrom_def parentLink_frHeap
    using trancl_one_edge [of _ _ "1::nat" 0] by fastforce
  have v: "getOldestPostInThread frHeap [5 \<mapsto> 0] 1 = Some 0"
    by (simp add: getOldestPostInThread.simps frHeap_def blankPost_def)
  from getOldestPostInThread_terminates [OF f n] f n v show ?thesis by simp
qed

text \<open>Without the precondition the walk need not return: a post that is its own parent.\<close>

lemma getOldestPostInThread_self_parent: "getOldestPostInThread selfHeap [5 \<mapsto> 0] 0 = None"
proof (cases "getOldestPostInThread selfHeap [5 \<mapsto> 0] 0")
  case None
  then show ?thesis .
next
  case (Some q)
  then have "rootAncestor selfHeap [5 \<mapsto> 0] 0 q" by (rule getOldest_rootAncestor)
  moreover have "rootAncestor selfHeap [5 \<mapsto> 0] r q \<Longrightarrow> r \<noteq> 0" for r q
    by (induction rule: rootAncestor.induct)
       (auto simp: selfHeap_def blankPost_def split: if_splits)
  ultimately show ?thesis by blast
qed

section \<open>What updateForumData computes\<close>

lemma updatePostHash_eq:
  "updatePostHash rs s = s\<lparr>postHash := indexPosts (heap s) rs (postHash s)\<rparr>"
  by (induction rs arbitrary: s) simp_all

lemma indexPosts_same_ids:
  assumes "\<And>x. postId (h' x) = postId (h x)"
  shows "indexPosts h' rs ph = indexPosts h rs ph"
  by (induction rs arbitrary: ph) (simp_all add: assms)

lemma threadIdOf_same_shape:
  assumes "\<And>x. h' x = (h x)\<lparr>threadId := threadId (h' x)\<rparr>"
  shows "threadIdOf h' ph r = threadIdOf h ph r"
proof -
  have p: "\<And>x. parent (h' x) = parent (h x)"
  proof -
    fix x
    have "parent (h' x) = parent ((h x)\<lparr>threadId := threadId (h' x)\<rparr>)"
      using assms [of x] by simp
    then show "parent (h' x) = parent (h x)" by simp
  qed
  have m: "\<And>x. makeThreadId (h' x) = makeThreadId (h x)"
  proof -
    fix x
    have "makeThreadId (h' x) = makeThreadId ((h x)\<lparr>threadId := threadId (h' x)\<rparr>)"
      using assms [of x] by simp
    then show "makeThreadId (h' x) = makeThreadId (h x)" by (simp add: makeThreadId_def)
  qed
  show ?thesis
    by (simp add: threadIdOf_def getOldest_same_parents [OF p] m)
qed

lemma withThreadIds_shape:
  "withThreadIds h ph rs x = (h x)\<lparr>threadId := threadId (withThreadIds h ph rs x)\<rparr>"
  by (simp add: withThreadIds_def)

lemma addThreadIds_eq:
  "addThreadIds rs s =
     (if \<forall>r\<in>set rs. getOldestPostInThread (heap s) (postHash s) r \<noteq> None
      then Some (s\<lparr>heap := withThreadIds (heap s) (postHash s) rs\<rparr>)
      else None)"
proof (induction rs arbitrary: s)
  case Nil
  then show ?case by (simp add: withThreadIds_def)
next
  case (Cons r rs)
  show ?case
  proof (cases "getOldestPostInThread (heap s) (postHash s) r")
    case None
    then show ?thesis by simp
  next
    case (Some f)
    define h1 where "h1 = (heap s)(r := (heap s r)\<lparr>threadId := Some (makeThreadId (heap s f))\<rparr>)"
    have shape: "\<And>x. h1 x = (heap s x)\<lparr>threadId := threadId (h1 x)\<rparr>"
      by (simp add: h1_def)
    have par: "\<And>x. parent (h1 x) = parent (heap s x)"
      by (simp add: h1_def)
    have tid: "\<And>x. threadIdOf h1 (postHash s) x = threadIdOf (heap s) (postHash s) x"
      by (rule threadIdOf_same_shape) (rule shape)
    have tr: "threadIdOf (heap s) (postHash s) r = Some (makeThreadId (heap s f))"
      using Some by (simp add: threadIdOf_def)
    have w: "withThreadIds h1 (postHash s) rs = withThreadIds (heap s) (postHash s) (r # rs)"
    proof
      fix x
      show "withThreadIds h1 (postHash s) rs x = withThreadIds (heap s) (postHash s) (r # rs) x"
        using tr by (simp add: withThreadIds_def tid) (simp add: h1_def)
    qed
    have "addThreadIds (r # rs) s = addThreadIds rs (s\<lparr>heap := h1\<rparr>)"
      using Some by (simp add: h1_def)
    also have "\<dots> = (if \<forall>r'\<in>set rs. getOldestPostInThread h1 (postHash s) r' \<noteq> None
        then Some (s\<lparr>heap := withThreadIds h1 (postHash s) rs\<rparr>) else None)"
      by (simp add: Cons.IH)
    also have "\<dots> = (if \<forall>r'\<in>set (r # rs). getOldestPostInThread (heap s) (postHash s) r' \<noteq> None
        then Some (s\<lparr>heap := withThreadIds (heap s) (postHash s) (r # rs)\<rparr>) else None)"
      using Some by (simp add: getOldest_same_parents [OF par] w)
    finally show ?thesis .
  qed
qed

lemma groupThreads_Nil: "groupThreads h [] th = th"
  by (simp add: groupThreads_def)

lemma groupThreads_Cons:
  "groupThreads h (r # rs) th =
     groupThreads h rs
       (th(threadKey (h r) \<mapsto> (case th (threadKey (h r)) of None \<Rightarrow> [] | Some l \<Rightarrow> l) @ [r]))"
  by (rule ext) (simp add: groupThreads_def)

lemma updateThreadHash_eq:
  "updateThreadHash rs s = s\<lparr>threadHash := groupThreads (heap s) rs (threadHash s)\<rparr>"
  by (induction rs arbitrary: s) (simp_all add: groupThreads_Nil groupThreads_Cons Let_def)

lemma updateForumData_full:
  "updateForumData rs True now s =
     (if \<forall>r\<in>set rs. getOldestPostInThread (heap s) (indexPosts (heap s) rs Map.empty) r \<noteq> None
      then Some (s\<lparr>postHash := indexPosts (heap s) rs Map.empty,
                  heap := withThreadIds (heap s) (indexPosts (heap s) rs Map.empty) rs,
                  threadHash := groupThreads
                    (withThreadIds (heap s) (indexPosts (heap s) rs Map.empty) rs) rs Map.empty,
                  forumUpdateTime := Some now\<rparr>)
      else None)"
  by (simp add: updateForumData_def updatePostHash_eq addThreadIds_eq updateThreadHash_eq Let_def)

lemma withThreadIds_fields:
  "parent (withThreadIds h ph rs x) = parent (h x)"
  "postId (withThreadIds h ph rs x) = postId (h x)"
  "postLocale (withThreadIds h ph rs x) = postLocale (h x)"
  by (simp_all add: withThreadIds_def)

lemma withThreadIds_idem:
  "withThreadIds (withThreadIds h ph rs) ph rs = withThreadIds h ph rs"
proof
  fix x
  have t: "threadIdOf (withThreadIds h ph rs) ph x = threadIdOf h ph x"
    by (rule threadIdOf_same_shape) (rule withThreadIds_shape)
  show "withThreadIds (withThreadIds h ph rs) ph rs x = withThreadIds h ph rs x"
    unfolding withThreadIds_def [of "withThreadIds h ph rs"] t
    by (simp add: withThreadIds_def)
qed

lemma updateForumData_full_Some:
  assumes "updateForumData posts True now s = Some s'"
  shows "postHash s' = indexPosts (heap s) posts Map.empty"
    and "heap s' = withThreadIds (heap s) (postHash s') posts"
    and "threadHash s' = groupThreads (heap s') posts Map.empty"
    and "\<forall>r\<in>set posts. getOldestPostInThread (heap s) (postHash s') r \<noteq> None"
  using assms by (auto simp: updateForumData_full split: if_splits)

text \<open>
  C3. Indexing the same full list a second time changes nothing but the refresh time: post
  index, thread index and posts are those of the first run (and a first run that does not
  return has no second run).
\<close>

theorem updateForumData_idempotent:
  "Option.bind (updateForumData posts True t1 s) (updateForumData posts True t2) =
   map_option (\<lambda>s'. s'\<lparr>forumUpdateTime := Some t2\<rparr>) (updateForumData posts True t1 s)"
proof (cases "\<forall>r\<in>set posts.
    getOldestPostInThread (heap s) (indexPosts (heap s) posts Map.empty) r \<noteq> None")
  case False
  then have "updateForumData posts True t1 s = None"
    by (simp add: updateForumData_full)
  then show ?thesis by simp
next
  case True
  define idx where "idx = indexPosts (heap s) posts Map.empty"
  define h' where "h' = withThreadIds (heap s) idx posts"
  define s1 where "s1 = s\<lparr>postHash := idx, heap := h',
      threadHash := groupThreads h' posts Map.empty, forumUpdateTime := Some t1\<rparr>"
  have first: "updateForumData posts True t1 s = Some s1"
    using True by (simp add: updateForumData_full s1_def h'_def idx_def)
  have i: "indexPosts h' posts Map.empty = idx"
    unfolding idx_def by (rule indexPosts_same_ids) (simp add: h'_def withThreadIds_fields)
  have g: "\<And>r. getOldestPostInThread h' idx r = getOldestPostInThread (heap s) idx r"
    by (rule getOldest_same_parents) (simp add: h'_def withThreadIds_fields)
  have w: "withThreadIds h' idx posts = h'"
    unfolding h'_def by (rule withThreadIds_idem)
  have c: "\<forall>r\<in>set posts. getOldestPostInThread h' idx r \<noteq> None"
    unfolding g using True by (simp add: idx_def)
  have second: "updateForumData posts True t2 s1 = Some (s1\<lparr>forumUpdateTime := Some t2\<rparr>)"
    unfolding updateForumData_full
    using c by (simp add: s1_def i w)
  show ?thesis by (simp add: first second)
qed

theorem updateForumData_idempotent_witness:
  "updateForumData [0, 1, 2, 3] True 7 mixState \<noteq> None \<and>
   Option.bind (updateForumData [0, 1, 2, 3] True 7 mixState)
     (updateForumData [0, 1, 2, 3] True 8) =
   map_option (\<lambda>s'. s'\<lparr>forumUpdateTime := Some 8\<rparr>)
     (updateForumData [0, 1, 2, 3] True 7 mixState)"
proof -
  have "updateForumData [0, 1, 2, 3] True 7 mixState \<noteq> None"
    by (simp add: eval_defs mixState_def mixHeap_def)
  with updateForumData_idempotent [of "[0, 1, 2, 3]" 7 mixState 8] show ?thesis by blast
qed

section \<open>Thread ids\<close>

lemma indexPosts_finite:
  "finite (dom ph) \<Longrightarrow> finite (dom (indexPosts h rs ph))"
  by (induction rs arbitrary: ph) simp_all

lemma indexPosts_keys:
  "indexPosts h rs ph k = Some x \<Longrightarrow> ph k = Some x \<or> (x \<in> set rs \<and> postId (h x) = k)"
proof (induction rs arbitrary: ph)
  case Nil
  then show ?case by simp
next
  case (Cons a rs)
  from Cons.prems have "indexPosts h rs (ph(postId (h a) \<mapsto> a)) k = Some x" by simp
  then have "(ph(postId (h a) \<mapsto> a)) k = Some x \<or> (x \<in> set rs \<and> postId (h x) = k)"
    by (rule Cons.IH)
  then show ?case by (auto split: if_splits)
qed

text \<open>
  When every key of the index is non-negative, a negative parent is absent from the index, and
  the walk of the loop is the walk that stops at parent -1 or at an absent parent.
\<close>

lemma rootAncestor_spec:
  assumes "rootAncestor h idx r q" and keys: "\<And>k x. idx k = Some x \<Longrightarrow> 0 \<le> k"
  shows "rootAncestorSpec h idx r q"
  using assms(1)
proof (induction rule: rootAncestor.induct)
  case (root_here r)
  have "idx (parent (h r)) = None"
  proof (cases "idx (parent (h r))")
    case None
    then show ?thesis .
  next
    case (Some x)
    then have "0 \<le> parent (h r)" by (rule keys)
    with root_here Some show ?thesis by simp
  qed
  then show ?case by (simp add: spec_root_here)
next
  case (root_up r r' q)
  from root_up.hyps(1) have "parent (h r) \<noteq> -1" by simp
  then show ?case using root_up.hyps(2) root_up.IH by (rule spec_root_up)
qed

text \<open>
  After a full-set indexing that returns, the thread id of a post of the list is made from the
  post at which the loop of \<^verbatim>\<open>getOldestPostInThread\<close> stops.
\<close>

lemma threadId_rootAncestor:
  assumes "updateForumData posts True now s = Some s'" and "r \<in> set posts"
  shows "\<exists>q. rootAncestor (heap s') (postHash s') r q \<and>
             threadId (heap s' r) =
               Some (postLocale (heap s' q) @ ''|'' @ numberToString (postId (heap s' q)))"
proof -
  note f = updateForumData_full_Some [OF assms(1)]
  from f(4) assms(2) obtain q where q: "getOldestPostInThread (heap s) (postHash s') r = Some q"
    by auto
  then have "rootAncestor (heap s) (postHash s') r q" by (rule getOldest_rootAncestor)
  then have ra: "rootAncestor (heap s') (postHash s') r q"
    by (rule rootAncestor_same_parents) (simp add: f(2) withThreadIds_fields)
  have "threadId (heap s' r) = threadIdOf (heap s) (postHash s') r"
    using assms(2) by (subst f(2)) (simp add: withThreadIds_def)
  also have "\<dots> = Some (makeThreadId (heap s q))"
    using q by (simp add: threadIdOf_def)
  also have "makeThreadId (heap s q) =
      postLocale (heap s' q) @ ''|'' @ numberToString (postId (heap s' q))"
    by (subst (1 2) f(2)) (simp add: makeThreadId_def withThreadIds_fields)
  finally show ?thesis using ra by blast
qed

lemma rootAncestorSpec_unfold:
  "rootAncestorSpec h idx r q \<longleftrightarrow>
     (q = r \<and> (parent (h r) = -1 \<or> idx (parent (h r)) = None)) \<or>
     (\<exists>r'. parent (h r) \<noteq> -1 \<and> idx (parent (h r)) = Some r' \<and> rootAncestorSpec h idx r' q)"
  by (subst rootAncestorSpec.simps) simp

text \<open>A post has at most one root ancestor.\<close>

lemma rootAncestorSpec_unique:
  assumes "rootAncestorSpec h idx r q" and "rootAncestorSpec h idx r q'"
  shows "q = q'"
  using assms
proof (induction arbitrary: q' rule: rootAncestorSpec.induct)
  case (spec_root_here r)
  from spec_root_here.prems
  have "(q' = r \<and> (parent (h r) = -1 \<or> idx (parent (h r)) = None)) \<or>
     (\<exists>r'. parent (h r) \<noteq> -1 \<and> idx (parent (h r)) = Some r' \<and> rootAncestorSpec h idx r' q')"
    by (subst (asm) rootAncestorSpec_unfold)
  with spec_root_here.hyps show ?case by auto
next
  case (spec_root_up r r' q)
  from spec_root_up.prems
  have "(q' = r \<and> (parent (h r) = -1 \<or> idx (parent (h r)) = None)) \<or>
     (\<exists>r'. parent (h r) \<noteq> -1 \<and> idx (parent (h r)) = Some r' \<and> rootAncestorSpec h idx r' q')"
    by (subst (asm) rootAncestorSpec_unfold)
  with spec_root_up.hyps have "rootAncestorSpec h idx r' q'" by auto
  then show ?case by (rule spec_root_up.IH)
qed

text \<open>
  C1. Post ids are non-negative numbers (the guards \<^verbatim>\<open>post.parent >= 0\<close> and
  \<^verbatim>\<open>params.replyTo >= 0\<close> of this file read a negative number as no post), and the walk
  along parent links is assumed to reach a root, that is, no cycle of parent links can be
  reached from a post of the list in the index built from the list. Then the full-set
  indexing returns, and the thread id of every post of the list is the locale of its root
  ancestor, a vertical bar, and the id of that root ancestor, where the root ancestor is
  reached by following parent links through the post index until a post with parent -1, or
  with a parent absent from the index, is reached.
\<close>

theorem addThreadIds_root:
  assumes ids: "\<forall>r\<in>set posts. 0 \<le> postId (heap s r)"
    and acyc: "\<forall>r\<in>set posts.
       noCycleFrom (heap s) (postHash (updatePostHash posts (s\<lparr>postHash := Map.empty\<rparr>))) r"
  shows "\<exists>s'. updateForumData posts True now s = Some s' \<and>
           (\<forall>r\<in>set posts. \<exists>q. rootAncestorSpec (heap s') (postHash s') r q \<and>
               threadId (heap s' r) =
                 Some (postLocale (heap s' q) @ ''|'' @ numberToString (postId (heap s' q))))"
proof -
  define idx where "idx = indexPosts (heap s) posts Map.empty"
  have i: "postHash (updatePostHash posts (s\<lparr>postHash := Map.empty\<rparr>)) = idx"
    by (simp add: updatePostHash_eq idx_def)
  have fin: "finite (dom idx)"
    unfolding idx_def by (rule indexPosts_finite) simp
  have keys: "0 \<le> k" if "idx k = Some x" for k x
  proof -
    from that have "x \<in> set posts \<and> postId (heap s x) = k"
      unfolding idx_def by (auto dest: indexPosts_keys)
    with ids show ?thesis by auto
  qed
  have ret: "\<forall>r\<in>set posts. getOldestPostInThread (heap s) idx r \<noteq> None"
  proof
    fix r assume "r \<in> set posts"
    with acyc have "noCycleFrom (heap s) idx r" unfolding i by blast
    with fin have "\<exists>q. getOldestPostInThread (heap s) idx r = Some q"
      by (rule getOldest_returns)
    then show "getOldestPostInThread (heap s) idx r \<noteq> None" by auto
  qed
  then obtain s' where s': "updateForumData posts True now s = Some s'"
    by (simp add: updateForumData_full idx_def)
  have ph: "postHash s' = idx"
    using updateForumData_full_Some(1) [OF s'] by (simp add: idx_def)
  have "\<exists>q. rootAncestorSpec (heap s') (postHash s') r q \<and>
               threadId (heap s' r) =
                 Some (postLocale (heap s' q) @ ''|'' @ numberToString (postId (heap s' q)))"
    if r: "r \<in> set posts" for r
  proof -
    from threadId_rootAncestor [OF s' r] obtain q where
      q: "rootAncestor (heap s') (postHash s') r q"
         "threadId (heap s' r) =
            Some (postLocale (heap s' q) @ ''|'' @ numberToString (postId (heap s' q)))"
      by blast
    from q(1) have "rootAncestorSpec (heap s') (postHash s') r q"
      by (rule rootAncestor_spec) (simp add: ph keys)
    with q(2) show ?thesis by blast
  qed
  with s' show ?thesis by blast
qed

lemma parentLink_frIndex: "parentLink frHeap [5 \<mapsto> 0, 9 \<mapsto> 1] = {(1, 0)}"
  by (auto simp: parentLink_def frHeap_def blankPost_def split: if_splits)

text \<open>
  The example of the specification: post 5 is a root and post 9 replies to it; the indexing
  returns and both posts get the thread id \<^verbatim>\<open>fr|5\<close>.
\<close>

theorem addThreadIds_root_witness:
  "\<exists>s'. updateForumData [0, 1] True 7 frState = Some s' \<and>
        threadId (heap s' 0) = Some ''fr|5'' \<and> threadId (heap s' 1) = Some ''fr|5'' \<and>
        (\<forall>r\<in>set [0, 1]. \<exists>q. rootAncestorSpec (heap s') (postHash s') r q \<and>
             threadId (heap s' r) =
               Some (postLocale (heap s' q) @ ''|'' @ numberToString (postId (heap s' q))))"
proof -
  have ids: "\<forall>r\<in>set [0, 1]. 0 \<le> postId (heap frState r)"
    by (simp add: frState_def frHeap_def blankPost_def)
  have idx: "postHash (updatePostHash [0, 1] (frState\<lparr>postHash := Map.empty\<rparr>)) =
      [5 \<mapsto> 0, 9 \<mapsto> 1]"
    by (simp add: frState_def frHeap_def blankPost_def emptyState_def)
  have h: "heap frState = frHeap" by (simp add: frState_def)
  have n: "noCycleFrom frHeap [5 \<mapsto> 0, 9 \<mapsto> 1] r" for r
    unfolding noCycleFrom_def parentLink_frIndex
    using trancl_one_edge [of _ _ "1::nat" 0] by fastforce
  have acyc: "\<forall>r\<in>set [0, 1].
       noCycleFrom (heap frState)
         (postHash (updatePostHash [0, 1] (frState\<lparr>postHash := Map.empty\<rparr>))) r"
    unfolding idx h using n by blast
  from addThreadIds_root [OF ids acyc, of 7] obtain s' where
    s': "updateForumData [0, 1] True 7 frState = Some s'"
    and e: "\<forall>r\<in>set [0, 1]. \<exists>q. rootAncestorSpec (heap s') (postHash s') r q \<and>
             threadId (heap s' r) =
               Some (postLocale (heap s' q) @ ''|'' @ numberToString (postId (heap s' q)))"
    by blast
  have v: "\<exists>s'. updateForumData [0, 1] True 7 frState = Some s' \<and>
        threadId (heap s' 0) = Some ''fr|5'' \<and> threadId (heap s' 1) = Some ''fr|5''"
    by (simp add: eval_defs)
  with s' have t: "threadId (heap s' 0) = Some ''fr|5''" "threadId (heap s' 1) = Some ''fr|5''"
    by auto
  show ?thesis
    by (rule exI [of _ s']) (intro conjI s' t e)
qed

text \<open>
  The hypothesis on the ids cannot be dropped. With a post stored under the number -2, post 9
  that names -2 as its parent is not walked any further (the guard is \<^verbatim>\<open>post.parent >= 0\<close>)
  and gets \<^verbatim>\<open>de|9\<close>, while the walk that stops only at -1 or at an absent parent reaches
  post -2.
\<close>

lemma negative_id_not_walked:
  "(case updateForumData [0, 1] True 7 negState of
      None \<Rightarrow> False
    | Some s' \<Rightarrow>
        rootAncestorSpec (heap s') (postHash s') 1 0 \<and>
        postLocale (heap s' 0) @ ''|'' @ numberToString (postId (heap s' 0)) = ''fr|-2'' \<and>
        threadId (heap s' 1) = Some ''de|9'')"
proof -
  have "\<exists>s'. updateForumData [0, 1] True 7 negState = Some s' \<and>
          parent (heap s' 1) = -2 \<and> postHash s' (-2) = Some 0 \<and> parent (heap s' 0) = -1 \<and>
          postLocale (heap s' 0) = ''fr'' \<and> postId (heap s' 0) = -2 \<and>
          threadId (heap s' 1) = Some ''de|9''"
    by (simp add: eval_defs negState_def negHeap_def)
  then obtain s' where s': "updateForumData [0, 1] True 7 negState = Some s'"
    "parent (heap s' 1) = -2" "postHash s' (-2) = Some 0" "parent (heap s' 0) = -1"
    "postLocale (heap s' 0) = ''fr''" "postId (heap s' 0) = -2"
    "threadId (heap s' 1) = Some ''de|9''"
    by blast
  have "rootAncestorSpec (heap s') (postHash s') 0 0"
    by (rule spec_root_here) (simp add: s'(4))
  then have r: "rootAncestorSpec (heap s') (postHash s') 1 0"
    by (rule spec_root_up [rotated 2]) (use s'(2,3) in simp_all)
  have n: "postLocale (heap s' 0) @ ''|'' @ numberToString (postId (heap s' 0)) = ''fr|-2''"
    unfolding s'(5,6) by (simp add: numberToString_def digitsOf.simps digitChars_def)
  show ?thesis
    unfolding s'(1) option.case by (intro conjI r n s'(7))
qed

section \<open>Order within a thread\<close>

lemma find_filter: "find P xs = (case filter P xs of [] \<Rightarrow> None | x # _ \<Rightarrow> Some x)"
  by (induction xs) simp_all

lemma indexed_threadId:
  assumes "updateForumData posts True now s = Some s'" and "r \<in> set posts"
  shows "\<exists>k. threadId (heap s' r) = Some k"
proof -
  note f = updateForumData_full_Some [OF assms(1)]
  from f(4) assms(2) obtain q where "getOldestPostInThread (heap s) (postHash s') r = Some q"
    by auto
  then show ?thesis
    using assms(2) by (subst f(2)) (simp add: withThreadIds_def threadIdOf_def)
qed

lemma indexed_filter:
  assumes "updateForumData posts True now s = Some s'"
  shows "filter (\<lambda>x. threadKey (heap s' x) = k) posts =
         filter (\<lambda>x. threadId (heap s' x) = Some k) posts"
proof (rule filter_cong [OF refl])
  fix x assume "x \<in> set posts"
  from indexed_threadId [OF assms this] obtain k' where "threadId (heap s' x) = Some k'" ..
  then show "(threadKey (heap s' x) = k) = (threadId (heap s' x) = Some k)"
    by (simp add: threadKey_def)
qed

lemma indexed_threadHash:
  assumes "updateForumData posts True now s = Some s'"
  shows "threadHash s' k =
         (if filter (\<lambda>x. threadId (heap s' x) = Some k) posts = [] then None
          else Some (filter (\<lambda>x. threadId (heap s' x) = Some k) posts))"
  unfolding updateForumData_full_Some(3) [OF assms] groupThreads_def indexed_filter [OF assms]
  by simp

text \<open>
  C10. After a full-set indexing that returns, every list of the thread index is the input
  list restricted to the posts of that thread, in the order of the input; so its first
  element is the first post of the thread in the newest-first input, and
  \<^verbatim>\<open>getNewestPostInThread\<close> returns that post for every post of the list.
\<close>

theorem threadHash_order:
  assumes "updateForumData posts True now s = Some s'"
  shows "(\<forall>k l. threadHash s' k = Some l \<longrightarrow>
            l \<noteq> [] \<and> l = filter (\<lambda>x. threadId (heap s' x) = Some k) posts) \<and>
         (\<forall>r\<in>set posts. \<exists>k newest.
            threadId (heap s' r) = Some k \<and>
            find (\<lambda>x. threadId (heap s' x) = Some k) posts = Some newest \<and>
            getNewestPostInThread s' (heap s' r) = Inr (Some newest))"
proof (intro conjI allI impI ballI)
  fix k l assume "threadHash s' k = Some l"
  then show "l \<noteq> []" "l = filter (\<lambda>x. threadId (heap s' x) = Some k) posts"
    by (auto simp: indexed_threadHash [OF assms] split: if_splits)
next
  fix r assume r: "r \<in> set posts"
  from indexed_threadId [OF assms r] obtain k where k: "threadId (heap s' r) = Some k" ..
  with r have "r \<in> set (filter (\<lambda>x. threadId (heap s' x) = Some k) posts)" by simp
  then obtain newest rest where fl: "filter (\<lambda>x. threadId (heap s' x) = Some k) posts = newest # rest"
    by (cases "filter (\<lambda>x. threadId (heap s' x) = Some k) posts") auto
  have "find (\<lambda>x. threadId (heap s' x) = Some k) posts = Some newest"
    by (simp add: find_filter fl)
  moreover have "getNewestPostInThread s' (heap s' r) = Inr (Some newest)"
    using k fl by (simp add: getNewestPostInThread_def threadKey_def indexed_threadHash [OF assms])
  ultimately show "\<exists>k newest. threadId (heap s' r) = Some k \<and>
            find (\<lambda>x. threadId (heap s' x) = Some k) posts = Some newest \<and>
            getNewestPostInThread s' (heap s' r) = Inr (Some newest)"
    using k by (intro exI [of _ k] exI [of _ newest] conjI)
qed


theorem threadHash_order_witness:
  "\<exists>s'. updateForumData [0, 1, 2, 3] True 7 mixState = Some s' \<and>
        threadHash s' ''fr|5'' = Some [0, 2, 3] \<and> threadHash s' ''de|11'' = Some [1] \<and>
        (\<exists>k newest. threadId (heap s' 3) = Some k \<and>
            find (\<lambda>x. threadId (heap s' x) = Some k) [0, 1, 2, 3] = Some newest \<and>
            getNewestPostInThread s' (heap s' 3) = Inr (Some newest)) \<and>
        getNewestPostInThread s' (heap s' 3) = Inr (Some 0)"
proof -
  have "\<exists>s'. updateForumData [0, 1, 2, 3] True 7 mixState = Some s' \<and>
        threadHash s' ''fr|5'' = Some [0, 2, 3] \<and> threadHash s' ''de|11'' = Some [1] \<and>
        getNewestPostInThread s' (heap s' 3) = Inr (Some 0)"
    by (simp add: eval_defs mixState_def mixHeap_def getNewestPostInThread_def)
  then obtain s' where s': "updateForumData [0, 1, 2, 3] True 7 mixState = Some s'"
    "threadHash s' ''fr|5'' = Some [0, 2, 3]" "threadHash s' ''de|11'' = Some [1]"
    "getNewestPostInThread s' (heap s' 3) = Inr (Some 0)"
    by blast
  have "3 \<in> set [0, 1, 2, 3 :: nat]" by simp
  with threadHash_order [OF s'(1)]
  have e: "\<exists>k newest. threadId (heap s' 3) = Some k \<and>
            find (\<lambda>x. threadId (heap s' x) = Some k) [0, 1, 2, 3] = Some newest \<and>
            getNewestPostInThread s' (heap s' 3) = Inr (Some newest)"
    by blast
  show ?thesis
    by (rule exI [of _ s']) (intro conjI s'(1) s'(2) s'(3) s'(4) e)
qed

section \<open>Locale switch\<close>

lemma setLocale_other:
  "forumLocale s \<noteq> Some loc \<Longrightarrow>
   setLocale loc s = s\<lparr>forumLocale := Some loc, forumUpdateTime := None, postHash := Map.empty\<rparr>"
  by (auto simp: setLocale_def)

lemma setLocale_keeps_threadHash: "threadHash (setLocale loc s) = threadHash s"
  by (simp add: setLocale_def)

text \<open>
  C2. The claim: a call of \<^verbatim>\<open>setLocale\<close> with a new locale empties the post index and the
  thread index and resets the refresh time. The code empties \<^verbatim>\<open>postHash\<close> and resets the time
  but leaves \<^verbatim>\<open>threadHash\<close> as it was: after loading the two French posts and switching to
  \<^verbatim>\<open>de\<close>, the thread index still holds the thread \<^verbatim>\<open>fr|5\<close>.
\<close>

theorem setLocale_stale_threadHash:
  "(case updateForumData [0, 1] True 7 (setLocale ''fr'' frState) of
      None \<Rightarrow> False
    | Some s1 \<Rightarrow>
        forumLocale s1 = Some ''fr'' \<and>
        threadHash (setLocale ''de'' s1) ''fr|5'' = Some [0, 1] \<and>
        postHash (setLocale ''de'' s1) = Map.empty \<and>
        forumUpdateTime (setLocale ''de'' s1) = None)"
  by (simp add: eval_defs setLocale_def)

section \<open>Allowed post types\<close>

text \<open>
  \<^verbatim>\<open>surveyUser === post.poster\<close> compares the user object itself with the poster's id: for a
  user object and a numeric poster field it is false.
\<close>

lemma userIsPoster_object_user:
  "surveyUser e = JObj a \<Longrightarrow> poster p = JNum n \<Longrightarrow> \<not> userIsPoster e (Some p)"
  by (simp add: userIsPoster_def)

lemma map_fst_dup: "map fst (map (\<lambda>v. (v, v)) xs) = xs"
  by (induction xs) simp_all

lemma getStatusOptions_list:
  assumes "userCanClose e s isReply firstPost = Inr c"
  shows "getStatusOptions e s isReply firstPost myValue =
         Inr (map (\<lambda>v. (v, v))
               ((if truthy myValue \<and> \<not> isReply then [''Request''] else []) @ [''Discuss''] @
                (if mayAgree e isReply firstPost then [''Agree'', ''Decline''] else []) @
                (if c then [''Close''] else [])))"
  using assms
  by (cases firstPost) (simp_all add: getStatusOptions_def Let_def userIsPoster_def mayAgree_def)

text \<open>
  What the code returns. For every input other than a reply with a null first post,
  \<^verbatim>\<open>getStatusOptions\<close> returns; Discuss is among the verbs; Request is among them exactly
  when the post is not a reply and \<^verbatim>\<open>myValue\<close> is a non-empty string; Agree and Decline come
  together, exactly when the post is a reply, the first post has status Request and the test
  \<^verbatim>\<open>surveyUser === firstPost.poster\<close> of a defined \<^verbatim>\<open>surveyUser\<close> fails.
\<close>

lemma getStatusOptions_returns:
  assumes "\<not> (isReply \<and> firstPost = None)"
  shows "\<exists>opts. getStatusOptions e s isReply firstPost myValue = Inr opts \<and>
           ''Discuss'' \<in> set (map fst opts) \<and>
           (''Request'' \<in> set (map fst opts) \<longleftrightarrow> \<not> isReply \<and> (\<exists>v. myValue = Some v \<and> v \<noteq> [])) \<and>
           (''Agree'' \<in> set (map fst opts) \<longleftrightarrow> ''Decline'' \<in> set (map fst opts)) \<and>
           (''Agree'' \<in> set (map fst opts) \<longleftrightarrow>
              isReply \<and> (\<exists>fp. firstPost = Some fp \<and> status fp = ''Request'' \<and>
                 \<not> (surveyUser e \<noteq> JUndefined \<and> surveyUser e = poster fp)))"
proof -
  have "\<exists>c. userCanClose e s isReply firstPost = Inr c"
    using assms by (cases firstPost) (auto simp: userCanClose_def threadIsClosed_def)
  then obtain c where c: "userCanClose e s isReply firstPost = Inr c" ..
  have t: "truthy myValue \<longleftrightarrow> (\<exists>v. myValue = Some v \<and> v \<noteq> [])"
    by (cases myValue) (simp_all add: truthy_def)
  show ?thesis
    unfolding getStatusOptions_list [OF c] mayAgree_def [symmetric] t [symmetric]
    by (intro exI conjI, rule refl) (auto simp: map_fst_dup)
qed

text \<open>
  Whenever the user global is an object and the poster field of the first post a number, a
  reply to a request thread is offered Agree and Decline, whoever opened the thread.
\<close>

lemma getStatusOptions_object_user:
  assumes "surveyUser e = JObj u" and "poster fp = JNum n" and "status fp = ''Request''"
  shows "\<exists>opts. getStatusOptions e s True (Some fp) myValue = Inr opts \<and>
           ''Agree'' \<in> set (map fst opts) \<and> ''Decline'' \<in> set (map fst opts)"
proof -
  have "\<exists>c. userCanClose e s True (Some fp) = Inr c"
    by (simp add: userCanClose_def threadIsClosed_def)
  then obtain c where c: "userCanClose e s True (Some fp) = Inr c" ..
  have m: "mayAgree e True (Some fp)"
    using assms by (simp add: mayAgree_def)
  show ?thesis
    unfolding getStatusOptions_list [OF c]
    by (intro exI conjI, rule refl) (simp_all add: m map_fst_dup)
qed

text \<open>
  C6 fails on the code in an ordinary session. The user with id 7 replies in the open request
  thread that user 7 opened. As the user global is the user object and the poster field the id,
  \<^verbatim>\<open>userIsPoster\<close> is false: the poster of the thread is offered Agree and Decline, which
  the claim reserves for users other than the poster (and is not offered Close, which
  \<^verbatim>\<open>userCanClose\<close> documents for the original poster of the thread).
\<close>

theorem getStatusOptions_poster_may_agree:
  "userIsPosterSpec sessionEnv requestPost \<and>
   \<not> userIsPoster sessionEnv (Some requestPost) \<and>
   status requestPost = ''Request'' \<and>
   threadIsClosed sessionEnv emptyState (Some requestPost) = Inr False \<and>
   getStatusOptions sessionEnv emptyState True (Some requestPost) None =
     Inr [(''Discuss'', ''Discuss''), (''Agree'', ''Agree''), (''Decline'', ''Decline'')]"
  by (simp add: getStatusOptions_def userCanClose_def threadIsClosed_def userIsPoster_def
      userIsTC_def userIsPosterSpec_def sessionEnv_def exampleEnv_def requestPost_def
      blankPost_def truthy_def)

text \<open>
  C7. Once \<^verbatim>\<open>threadIsClosed\<close> returns true for the first post, \<^verbatim>\<open>userCanClose\<close> returns
  false and Close is not among the allowed verbs, whoever the user is.
\<close>

theorem userCanClose_closed:
  assumes "threadIsClosed e s firstPost = Inr True"
  shows "userCanClose e s isReply firstPost = Inr False \<and>
         (\<exists>opts. getStatusOptions e s isReply firstPost myValue = Inr opts \<and>
                 ''Close'' \<notin> set (map fst opts))"
proof -
  have c: "userCanClose e s isReply firstPost = Inr False"
    using assms by (simp add: userCanClose_def)
  have "''Close'' \<notin> set (map fst (map (\<lambda>v. (v, v))
               ((if truthy myValue \<and> \<not> isReply then [''Request''] else []) @ [''Discuss''] @
                (if mayAgree e isReply firstPost then [''Agree'', ''Decline''] else []) @
                (if False then [''Close''] else []))))"
    unfolding map_fst_dup by auto
  then show ?thesis
    unfolding getStatusOptions_list [OF c] using c by blast
qed

text \<open>
  The poster of the thread, who is also a committee member, replies to the closed thread.
\<close>

theorem userCanClose_closed_witness:
  "threadIsClosed (exampleEnv (JNum 7) True True []) emptyState (Some requestPost) = Inr True \<and>
   userIsPoster (exampleEnv (JNum 7) True True []) (Some requestPost) \<and>
   userIsTC (exampleEnv (JNum 7) True True []) \<and>
   userCanClose (exampleEnv (JNum 7) True True []) emptyState True (Some requestPost) = Inr False \<and>
   (\<exists>opts. getStatusOptions (exampleEnv (JNum 7) True True []) emptyState True
             (Some requestPost) None = Inr opts \<and> ''Close'' \<notin> set (map fst opts))"
proof -
  have h: "threadIsClosed (exampleEnv (JNum 7) True True []) emptyState (Some requestPost)
           = Inr True"
    by (simp add: threadIsClosed_def exampleEnv_def)
  have u: "userIsPoster (exampleEnv (JNum 7) True True []) (Some requestPost) \<and>
           userIsTC (exampleEnv (JNum 7) True True [])"
    by (simp add: userIsPoster_def userIsTC_def exampleEnv_def requestPost_def)
  show ?thesis
    using h u userCanClose_closed [OF h, of True None] by simp
qed

section \<open>Reply subjects\<close>

lemma take3_prefix: "take 3 s = ''Re:'' \<longleftrightarrow> prefix ''Re:'' s"
proof (cases s)
  case Nil
  then show ?thesis by simp
next
  case (Cons a s1)
  show ?thesis
  proof (cases s1)
    case Nil
    with Cons show ?thesis by simp
  next
    case (Cons b s2)
    with \<open>s = a # s1\<close> show ?thesis by (cases s2) auto
  qed
qed

text \<open>
  C8, as the code has it. The subject of a reply is the decoded subject of the parent post,
  with \<^verbatim>\<open>"Re: "\<close> put in front exactly when the decoded subject does not begin with the three
  characters \<^verbatim>\<open>"Re:"\<close>.
\<close>

theorem makePostSubject_reply:
  "makePostSubject True (Some pp) subjectParam =
     (if prefix ''Re:'' (post2text (subject pp)) then post2text (subject pp)
      else ''Re: '' @ post2text (subject pp))"
  by (simp add: makePostSubject_def Let_def take3_prefix)

theorem makePostSubject_reply_witness:
  "makePostSubject True (Some (blankPost\<lparr>subject := Some ''a<p>&lt;b&gt; &amp;amp; &quot;c''\<rparr>)) '''' =
     ''Re: a'' @ [CHR 0x0A] @ ''<b> &amp; '' @ [CHR 0x22] @ ''c''"
  using makePostSubject_reply [of "blankPost\<lparr>subject := Some ''a<p>&lt;b&gt; &amp;amp; &quot;c''\<rparr>" "''''"]
  by (simp add: post2text_def blankPost_def)

text \<open>
  C8 as claimed fails for the parent subject \<^verbatim>\<open>Re:x\<close>: the prefix \<^verbatim>\<open>"Re: "\<close> (with its
  space) is absent, and yet nothing is put in front.
\<close>

theorem makePostSubject_counterexample:
  "\<not> prefix ''Re: '' (post2text (subject requestPost)) \<and>
   makePostSubject True (Some requestPost) '''' = ''Re:x'' \<and>
   makePostSubject True (Some requestPost) '''' \<noteq> ''Re: '' @ post2text (subject requestPost)"
  by (simp add: makePostSubject_def post2text_def requestPost_def blankPost_def)

section \<open>The order of the assembled containers\<close>

lemma assembledIds_subset: "set (assembledIds h rs flt) \<subseteq> set flt"
proof (induction rs arbitrary: flt)
  case Nil
  then show ?case by simp
next
  case (Cons r rs)
  show ?case
  proof (cases "threadId (h r)")
    case None
    with Cons.IH [of flt] show ?thesis by simp
  next
    case (Some t)
    with Cons.IH [of flt] Cons.IH [of "filter (\<lambda>i. i \<noteq> t) flt"] show ?thesis by auto
  qed
qed

lemma assembledIds_set:
  "set (assembledIds h rs flt) = {k. k \<in> set flt \<and> (\<exists>r\<in>set rs. threadId (h r) = Some k)}"
proof (induction rs arbitrary: flt)
  case Nil
  then show ?case by simp
next
  case (Cons r rs)
  show ?case
  proof (cases "threadId (h r)")
    case None
    with Cons.IH [of flt] show ?thesis by auto
  next
    case (Some t)
    show ?thesis
    proof (cases "t \<in> set flt")
      case True
      with Some Cons.IH [of "filter (\<lambda>i. i \<noteq> t) flt"] show ?thesis by auto
    next
      case False
      with Some Cons.IH [of flt] show ?thesis by auto
    qed
  qed
qed

lemma assembledIds_distinct: "distinct (assembledIds h rs flt)"
proof (induction rs arbitrary: flt)
  case Nil
  then show ?case by simp
next
  case (Cons r rs)
  show ?case
  proof (cases "threadId (h r)")
    case None
    with Cons.IH [of flt] show ?thesis by simp
  next
    case (Some t)
    have "t \<notin> set (assembledIds h rs (filter (\<lambda>i. i \<noteq> t) flt))"
      using assembledIds_subset [of h rs "filter (\<lambda>i. i \<noteq> t) flt"] by auto
    with Some Cons.IH [of flt] Cons.IH [of "filter (\<lambda>i. i \<noteq> t) flt"] show ?thesis by simp
  qed
qed

lemma threadPosition_Cons:
  "threadPosition h (r # rs) k =
     (if threadId (h r) = Some k then 0 else Suc (threadPosition h rs k))"
  by (simp add: threadPosition_def)

lemma sorted_wrt_shift:
  assumes "sorted_wrt (\<lambda>a b. f a < (f b :: nat)) ks" and "\<And>k. k \<in> set ks \<Longrightarrow> g k = Suc (f k)"
  shows "sorted_wrt (\<lambda>a b. g a < g b) ks"
  using assms by (induction ks) auto

lemma threadPosition_skip:
  assumes "threadId (h r) \<noteq> Some k"
  shows "threadPosition h (r # rs) k = Suc (threadPosition h rs k)"
  using assms by (simp add: threadPosition_Cons)

lemma assembledIds_sorted:
  "sorted_wrt (\<lambda>a b. threadPosition h rs a < threadPosition h rs b) (assembledIds h rs flt)"
proof (induction rs arbitrary: flt)
  case Nil
  then show ?case by simp
next
  case (Cons r rs)
  show ?case
  proof (cases "threadId (h r)")
    case None
    have "sorted_wrt (\<lambda>a b. threadPosition h (r # rs) a < threadPosition h (r # rs) b)
            (assembledIds h rs flt)"
      by (rule sorted_wrt_shift [OF Cons.IH [of flt]]) (simp add: threadPosition_skip None)
    with None show ?thesis by simp
  next
    case (Some t)
    show ?thesis
    proof (cases "t \<in> set flt")
      case True
      let ?rest = "assembledIds h rs (filter (\<lambda>i. i \<noteq> t) flt)"
      have nt: "threadId (h r) \<noteq> Some k" if "k \<in> set ?rest" for k
      proof -
        from that assembledIds_subset [of h rs "filter (\<lambda>i. i \<noteq> t) flt"]
        have "k \<in> set (filter (\<lambda>i. i \<noteq> t) flt)" by (rule subsetD [rotated])
        then have "k \<noteq> t" by simp
        with Some show ?thesis by simp
      qed
      have s: "sorted_wrt (\<lambda>a b. threadPosition h (r # rs) a < threadPosition h (r # rs) b) ?rest"
        by (rule sorted_wrt_shift [OF Cons.IH [of "filter (\<lambda>i. i \<noteq> t) flt"]])
           (rule threadPosition_skip, rule nt)
      have z: "threadPosition h (r # rs) t = 0"
        using Some by (simp add: threadPosition_Cons)
      have "\<forall>k\<in>set ?rest. threadPosition h (r # rs) t < threadPosition h (r # rs) k"
      proof
        fix k assume "k \<in> set ?rest"
        then have "threadPosition h (r # rs) k = Suc (threadPosition h rs k)"
          by (intro threadPosition_skip nt)
        with z show "threadPosition h (r # rs) t < threadPosition h (r # rs) k" by simp
      qed
      with s have "sorted_wrt (\<lambda>a b. threadPosition h (r # rs) a < threadPosition h (r # rs) b)
          (t # ?rest)" by simp
      moreover have "assembledIds h (r # rs) flt = t # ?rest"
        using Some True by simp
      ultimately show ?thesis by simp
    next
      case False
      have nt: "threadId (h r) \<noteq> Some k" if "k \<in> set (assembledIds h rs flt)" for k
      proof -
        from that assembledIds_subset [of h rs flt] have "k \<in> set flt" by (rule subsetD [rotated])
        with False have "k \<noteq> t" by blast
        with Some show ?thesis by simp
      qed
      have "sorted_wrt (\<lambda>a b. threadPosition h (r # rs) a < threadPosition h (r # rs) b)
              (assembledIds h rs flt)"
        by (rule sorted_wrt_shift [OF Cons.IH [of flt]]) (rule threadPosition_skip, rule nt)
      moreover have "assembledIds h (r # rs) flt = assembledIds h rs flt"
        using Some False by simp
      ultimately show ?thesis by simp
    qed
  qed
qed

section \<open>Appending to a root of the hierarchy\<close>

lemma inSubtree_other:
  assumes "inSubtree ch n t" and "t \<noteq> n"
  shows "\<exists>x. t \<in> set (ch x)"
  using assms
proof (induction rule: inSubtree.induct)
  case (subtree_self n)
  then show ?case by simp
next
  case (subtree_child c n t)
  show ?case
  proof (cases "t = c")
    case True
    with subtree_child.hyps(1) show ?thesis by blast
  next
    case False
    then show ?thesis by (rule subtree_child.IH)
  qed
qed

lemma appendChild_root:
  assumes "\<forall>x. t \<notin> set (children d x)" and "t \<noteq> c"
  shows "appendChild (Some t) (Some c) d = Inr (d\<lparr>children := moveUnder t c (children d)\<rparr>)"
proof -
  have "\<not> inSubtree (children d) c t"
    using inSubtree_other [of "children d" c t] assms by blast
  then show ?thesis by (simp add: appendChild_def)
qed

lemma moveUnder_keeps_out:
  assumes "\<forall>x. t \<notin> set (ch x)" and "t \<noteq> c"
  shows "t \<notin> set (moveUnder t' c ch x)"
  using assms by (simp add: moveUnder_def)

lemma moveUnder_member:
  assumes "m \<in> set (ch x)" and "m \<noteq> c"
  shows "m \<in> set (moveUnder t c ch x)"
  using assms by (auto simp: moveUnder_def)

lemma moveUnder_target:
  assumes "c \<notin> set (ch t)"
  shows "moveUnder t c ch t = ch t @ [c]"
  using assms by (simp add: moveUnder_def)

lemma assembledIds_in_filter:
  assumes "k \<in> set (assembledIds h rs (filter (\<lambda>i. i \<noteq> t) flt))"
  shows "k \<in> set flt" and "k \<noteq> t"
  using assms assembledIds_subset [of h rs "filter (\<lambda>i. i \<noteq> t) flt"] by auto

lemma assembleThreads_eq:
  assumes "\<forall>x. Fragment \<notin> set (children d x)"
    and "\<forall>k\<in>set (assembledIds h rs flt). td k = Some (TopicDiv k)"
    and "\<forall>k\<in>set flt. TopicDiv k \<notin> set (children d Fragment)"
  shows "\<exists>rest d'. assembleThreads h td rs flt n d =
            Inr (rest, n + length (assembledIds h rs flt), d') \<and>
          children d' Fragment = children d Fragment @ map TopicDiv (assembledIds h rs flt) \<and>
          (\<forall>x m. m \<in> set (children d x) \<longrightarrow> (\<forall>k. m \<noteq> TopicDiv k) \<longrightarrow> m \<in> set (children d' x)) \<and>
          (\<forall>x. x \<noteq> Fragment \<longrightarrow> set (children d' x) \<subseteq> set (children d x)) \<and>
          replies d' = replies d \<and> countText d' = countText d"
  using assms
proof (induction rs arbitrary: flt n d)
  case Nil
  then show ?case by simp
next
  case (Cons r rs)
  show ?case
  proof (cases "threadId (h r)")
    case None
    with Cons.IH [of d flt n] Cons.prems show ?thesis by simp
  next
    case (Some t)
    show ?thesis
    proof (cases "t \<in> set flt")
      case False
      with Some Cons.IH [of d flt n] Cons.prems show ?thesis by simp
    next
      case True
      let ?flt' = "filter (\<lambda>i. i \<noteq> t) flt"
      let ?rest = "assembledIds h rs ?flt'"
      define d1 where "d1 = d\<lparr>children := moveUnder Fragment (TopicDiv t) (children d)\<rparr>"
      have ids: "assembledIds h (r # rs) flt = t # ?rest"
        using Some True by simp
      have tdt: "td t = Some (TopicDiv t)"
        using Cons.prems(2) ids by simp
      have ap: "appendAny Fragment (td t) d = Inr d1"
        unfolding appendAny_def tdt d1_def option.case
        by (rule appendChild_root) (use Cons.prems(1) in simp_all)
      have step: "assembleThreads h td (r # rs) flt n d = assembleThreads h td rs ?flt' (Suc n) d1"
        using Some True ap by simp
      have p1: "\<forall>x. Fragment \<notin> set (children d1 x)"
        using Cons.prems(1) by (simp add: d1_def moveUnder_def)
      have p2: "\<forall>k\<in>set ?rest. td k = Some (TopicDiv k)"
        using Cons.prems(2) ids by simp
      have nin: "TopicDiv t \<notin> set (children d Fragment)"
        using Cons.prems(3) True by blast
      have cf: "children d1 Fragment = children d Fragment @ [TopicDiv t]"
        using nin by (simp add: d1_def moveUnder_def)
      have p3: "\<forall>k\<in>set ?flt'. TopicDiv k \<notin> set (children d1 Fragment)"
        using Cons.prems(3) by (simp add: cf)
      from Cons.IH [OF p1 p2 p3, of "Suc n"]
      obtain rest d' where r: "assembleThreads h td rs ?flt' (Suc n) d1 =
            Inr (rest, Suc n + length ?rest, d')"
        and c: "children d' Fragment = children d1 Fragment @ map TopicDiv ?rest"
        and m: "\<forall>x m. m \<in> set (children d1 x) \<longrightarrow> (\<forall>k. m \<noteq> TopicDiv k) \<longrightarrow> m \<in> set (children d' x)"
        and u: "\<forall>x. x \<noteq> Fragment \<longrightarrow> set (children d' x) \<subseteq> set (children d1 x)"
        and o: "replies d' = replies d1" "countText d' = countText d1"
        by blast
      have u': "\<forall>x. x \<noteq> Fragment \<longrightarrow> set (children d' x) \<subseteq> set (children d x)"
      proof (intro allI impI)
        fix x assume x: "x \<noteq> Fragment"
        with u have "set (children d' x) \<subseteq> set (children d1 x)" by blast
        also have "\<dots> \<subseteq> set (children d x)" using x by (auto simp: d1_def moveUnder_def)
        finally show "set (children d' x) \<subseteq> set (children d x)" .
      qed
      have m': "\<forall>x m. m \<in> set (children d x) \<longrightarrow> (\<forall>k. m \<noteq> TopicDiv k) \<longrightarrow> m \<in> set (children d' x)"
      proof (intro allI impI)
        fix x m assume a: "m \<in> set (children d x)" "\<forall>k. m \<noteq> TopicDiv k"
        then have "m \<in> set (children d1 x)" by (simp add: d1_def moveUnder_member)
        with m a(2) show "m \<in> set (children d' x)" by blast
      qed
      have c': "children d' Fragment = children d Fragment @ map TopicDiv (t # ?rest)"
        using c cf by simp
      have o': "replies d' = replies d" "countText d' = countText d"
        using o by (simp_all add: d1_def)
      have r': "assembleThreads h td rs ?flt' (Suc n) d1 =
            Inr (rest, n + length (t # ?rest), d')"
        using r by simp
      show ?thesis
        unfolding step ids
        by (rule exI [of _ rest], rule exI [of _ d']) (intro conjI r' c' m' u' o')
    qed
  qed
qed

lemma filterAndAssemble_eq:
  assumes "\<forall>k\<in>set (assembledIds (heap s) posts (getFilteredThreadIds e (threadPostsOf s) applyFlt)).
             topicDivs k = Some (TopicDiv k)"
  shows "\<exists>d'. filterAndAssembleForumThreads e s posts topicDivs applyFlt showCount d = Inr d' \<and>
          children d' Fragment = (if showCount then [CountEl] else []) @
            map TopicDiv (assembledIds (heap s) posts (getFilteredThreadIds e (threadPostsOf s) applyFlt)) \<and>
          (\<forall>x m. x \<noteq> Fragment \<longrightarrow> x \<noteq> CountEl \<longrightarrow> m \<in> set (children d x) \<longrightarrow>
                 (\<forall>k. m \<noteq> TopicDiv k) \<longrightarrow> m \<noteq> Fragment \<longrightarrow> m \<noteq> CountEl \<longrightarrow> m \<in> set (children d' x)) \<and>
          (\<forall>x. x \<noteq> Fragment \<longrightarrow> set (children d' x) \<subseteq> set (children d x)) \<and>
          countText d' =
            (if showCount then
               Some (digitsOf (length (assembledIds (heap s) posts
                        (getFilteredThreadIds e (threadPostsOf s) applyFlt))) [] @
                     (if length (assembledIds (heap s) posts
                          (getFilteredThreadIds e (threadPostsOf s) applyFlt)) = 1
                      then '' thread'' else '' threads''))
             else countText d)"
proof -
  let ?flt = "getFilteredThreadIds e (threadPostsOf s) applyFlt"
  let ?ids = "assembledIds (heap s) posts ?flt"
  define d0 where "d0 = createNode Fragment d"
  define d1 where "d1 = (if showCount
      then (createNode CountEl d0)\<lparr>children := moveUnder Fragment CountEl (children (createNode CountEl d0))\<rparr>
      else d0)"
  have i0: "\<forall>x. Fragment \<notin> set (children d0 x)"
    by (simp add: d0_def createNode_def)
  have ic: "\<forall>x. Fragment \<notin> set (children (createNode CountEl d0) x)"
    using i0 by (simp add: createNode_def)
  have first: "(if showCount then appendChild (Some Fragment) (Some CountEl) (createNode CountEl d0)
               else Inr d0) = Inr d1"
  proof (cases showCount)
    case True
    have "appendChild (Some Fragment) (Some CountEl) (createNode CountEl d0) =
          Inr ((createNode CountEl d0)\<lparr>children := moveUnder Fragment CountEl (children (createNode CountEl d0))\<rparr>)"
      by (rule appendChild_root) (use ic in simp_all)
    with True show ?thesis by (simp add: d1_def)
  next
    case False
    then show ?thesis by (simp add: d1_def)
  qed
  have i1: "\<forall>x. Fragment \<notin> set (children d1 x)"
    using i0 by (simp add: d1_def createNode_def moveUnder_def)
  have c1: "children d1 Fragment = (if showCount then [CountEl] else [])"
    by (simp add: d1_def d0_def createNode_def moveUnder_def)
  have f1: "\<forall>k\<in>set ?flt. TopicDiv k \<notin> set (children d1 Fragment)"
    by (simp add: c1)
  have m1: "\<forall>x m. x \<noteq> Fragment \<longrightarrow> x \<noteq> CountEl \<longrightarrow> m \<in> set (children d x) \<longrightarrow> m \<noteq> Fragment \<longrightarrow>
             m \<noteq> CountEl \<longrightarrow> m \<in> set (children d1 x)"
    by (simp add: d1_def d0_def createNode_def moveUnder_def)
  from assembleThreads_eq [OF i1 assms f1, of 0]
  obtain rest d2 where r: "assembleThreads (heap s) topicDivs posts ?flt 0 d1 =
            Inr (rest, 0 + length ?ids, d2)"
    and c: "children d2 Fragment = children d1 Fragment @ map TopicDiv ?ids"
    and m: "\<forall>x m. m \<in> set (children d1 x) \<longrightarrow> (\<forall>k. m \<noteq> TopicDiv k) \<longrightarrow> m \<in> set (children d2 x)"
    and u: "\<forall>x. x \<noteq> Fragment \<longrightarrow> set (children d2 x) \<subseteq> set (children d1 x)"
    and ct: "countText d2 = countText d1"
    by blast
  have u1: "\<forall>x. x \<noteq> Fragment \<longrightarrow> set (children d1 x) \<subseteq> set (children d x)"
    by (auto simp: d1_def d0_def createNode_def moveUnder_def split: if_splits)
  have u2: "\<forall>x. x \<noteq> Fragment \<longrightarrow> set (children d2 x) \<subseteq> set (children d x)"
    using u u1 by blast
  have ct1: "countText d1 = countText d"
    by (simp add: d1_def d0_def createNode_def)
  define d3 where "d3 = (if showCount then
        d2\<lparr>countText := Some (digitsOf (length ?ids) [] @
              (if length ?ids = 1 then '' thread'' else '' threads''))\<rparr>
      else d2)"
  have res: "filterAndAssembleForumThreads e s posts topicDivs applyFlt showCount d = Inr d3"
    unfolding filterAndAssembleForumThreads_def Let_def d0_def [symmetric] first
    using r by (simp add: d3_def)
  have c3: "children d3 = children d2" by (simp add: d3_def)
  have ct3: "countText d3 =
            (if showCount then
               Some (digitsOf (length ?ids) [] @ (if length ?ids = 1 then '' thread'' else '' threads''))
             else countText d)"
    using ct ct1 by (simp add: d3_def)
  have k3: "\<forall>x m. x \<noteq> Fragment \<longrightarrow> x \<noteq> CountEl \<longrightarrow> m \<in> set (children d x) \<longrightarrow>
                 (\<forall>k. m \<noteq> TopicDiv k) \<longrightarrow> m \<noteq> Fragment \<longrightarrow> m \<noteq> CountEl \<longrightarrow> m \<in> set (children d3 x)"
    using m m1 unfolding c3 by blast
  have f3: "children d3 Fragment = (if showCount then [CountEl] else []) @ map TopicDiv ?ids"
    using c by (simp add: c3 c1)
  show ?thesis
    unfolding res
    by (rule exI [of _ d3]) (intro conjI refl f3 k3 ct3, unfold c3, rule u2)
qed

text \<open>
  C5. When every thread of the list has its container in \<^verbatim>\<open>topicDivs\<close> (as the first loop
  of \<^verbatim>\<open>parseContent\<close> provides), \<^verbatim>\<open>filterAndAssembleForumThreads\<close> returns a fragment
  whose children are the thread count heading, if asked for, and then the containers of
  exactly the filter-passing threads that have a post in the list, each once, ordered by the
  position of the thread's first post in the newest-first list.
\<close>

theorem filterAndAssembleForumThreads_order:
  assumes "\<forall>r\<in>set posts. \<forall>k. threadId (heap s r) = Some k \<longrightarrow> topicDivs k = Some (TopicDiv k)"
  shows "\<exists>d' ks. filterAndAssembleForumThreads e s posts topicDivs applyFlt showCount d = Inr d' \<and>
           children d' Fragment = (if showCount then [CountEl] else []) @ map TopicDiv ks \<and>
           distinct ks \<and>
           set ks = {k. k \<in> set (getFilteredThreadIds e (threadPostsOf s) applyFlt) \<and>
                        (\<exists>r\<in>set posts. threadId (heap s r) = Some k)} \<and>
           sorted_wrt (\<lambda>a b. threadPosition (heap s) posts a < threadPosition (heap s) posts b) ks"
proof -
  let ?flt = "getFilteredThreadIds e (threadPostsOf s) applyFlt"
  let ?ids = "assembledIds (heap s) posts ?flt"
  have td: "\<forall>k\<in>set ?ids. topicDivs k = Some (TopicDiv k)"
    using assms by (auto simp: assembledIds_set)
  from filterAndAssemble_eq [OF td, of showCount d]
  obtain d' where d': "filterAndAssembleForumThreads e s posts topicDivs applyFlt showCount d = Inr d'"
    "children d' Fragment = (if showCount then [CountEl] else []) @ map TopicDiv ?ids"
    by blast
  show ?thesis
    by (rule exI [of _ d'], rule exI [of _ ?ids])
       (intro conjI d' assembledIds_distinct assembledIds_set assembledIds_sorted)
qed

section \<open>Containers, post divs and the reparenting loop\<close>

lemma makeTopicDivs_eq:
  assumes "makeTopicDivs s showLink rs td = Some (Inr td')"
  shows "td' = topicDivsOf (heap s) rs td"
  using assms
proof (induction rs arbitrary: td)
  case Nil
  then show ?case by (simp add: topicDivsOf_def)
next
  case (Cons r rs)
  let ?k = "threadKey (heap s r)"
  show ?case
  proof (cases "td ?k = None")
    case False
    with Cons.prems have "makeTopicDivs s showLink rs td = Some (Inr td')"
      by (simp add: Let_def)
    then have "td' = topicDivsOf (heap s) rs td" by (rule Cons.IH)
    also have "\<dots> = topicDivsOf (heap s) (r # rs) td"
      using False by (intro ext) (auto simp: topicDivsOf_def)
    finally show ?thesis .
  next
    case True
    with Cons.prems have "makeTopicDivs s showLink rs (td(?k \<mapsto> TopicDiv ?k)) = Some (Inr td')"
      by (auto simp: Let_def split: if_splits option.splits sum.splits)
    then have "td' = topicDivsOf (heap s) rs (td(?k \<mapsto> TopicDiv ?k))" by (rule Cons.IH)
    also have "\<dots> = topicDivsOf (heap s) (r # rs) td"
      using True by (intro ext) (auto simp: topicDivsOf_def)
    finally show ?thesis .
  qed
qed

lemma makePostDivs_eq:
  assumes "makePostDivs e s showReply rs num pd = Some (Inr pd')"
  shows "pd' = postDivsOf (heap s) rs num pd"
  using assms
proof (induction rs arbitrary: num pd)
  case Nil
  then show ?case by simp
next
  case (Cons r rs)
  from Cons.prems
  have "makePostDivs e s showReply rs (Suc num) (pd(postId (heap s r) \<mapsto> PostDiv num)) = Some (Inr pd')"
    by (auto simp: Let_def split: if_splits option.splits sum.splits)
  then have "pd' = postDivsOf (heap s) rs (Suc num) (pd(postId (heap s r) \<mapsto> PostDiv num))"
    by (rule Cons.IH)
  then show ?case by simp
qed

lemma postDivsOf_other:
  assumes "k \<notin> (\<lambda>r. postId (h r)) ` set rs"
  shows "postDivsOf h rs num pd k = pd k"
  using assms by (induction rs arbitrary: num pd) auto

lemma postDivsOf_nth:
  assumes "distinct (map (\<lambda>r. postId (h r)) rs)" and "i < length rs"
  shows "postDivsOf h rs num pd (postId (h (rs ! i))) = Some (PostDiv (num + i))"
  using assms
proof (induction rs arbitrary: num pd i)
  case Nil
  then show ?case by simp
next
  case (Cons r rs)
  show ?case
  proof (cases i)
    case 0
    have "postId (h r) \<notin> (\<lambda>r. postId (h r)) ` set rs"
      using Cons.prems(1) by auto
    then have "postDivsOf h rs (Suc num) (pd(postId (h r) \<mapsto> PostDiv num)) (postId (h r)) =
               (pd(postId (h r) \<mapsto> PostDiv num)) (postId (h r))"
      by (rule postDivsOf_other)
    with 0 show ?thesis by simp
  next
    case (Suc j)
    with Cons.prems have "distinct (map (\<lambda>r. postId (h r)) rs)" and "j < length rs" by simp_all
    then have "postDivsOf h rs (Suc num) (pd(postId (h r) \<mapsto> PostDiv num)) (postId (h (rs ! j))) =
               Some (PostDiv (Suc num + j))"
      by (rule Cons.IH)
    with Suc show ?thesis by simp
  qed
qed

lemma postDivsOf_member:
  assumes "k \<in> (\<lambda>r. postId (h r)) ` set rs"
  shows "\<exists>j. postDivsOf h rs num pd k = Some (PostDiv j)"
  using assms
proof (induction rs arbitrary: num pd)
  case Nil
  then show ?case by simp
next
  case (Cons a rs)
  show ?case
  proof (cases "k \<in> (\<lambda>r. postId (h r)) ` set rs")
    case True
    then have "\<exists>j. postDivsOf h rs (Suc num) (pd(postId (h a) \<mapsto> PostDiv num)) k = Some (PostDiv j)"
      by (rule Cons.IH)
    then show ?thesis by simp
  next
    case False
    with Cons.prems have k: "k = postId (h a)" by auto
    from False
    have "postDivsOf h rs (Suc num) (pd(postId (h a) \<mapsto> PostDiv num)) k =
          (pd(postId (h a) \<mapsto> PostDiv num)) k"
      by (rule postDivsOf_other)
    with k show ?thesis by simp
  qed
qed

lemma postDivsOf_range:
  assumes "postDivsOf h rs num pd k = Some m" and "\<forall>k m. pd k = Some m \<longrightarrow> (\<exists>j. m = PostDiv j)"
  shows "\<exists>j. m = PostDiv j"
  using assms
proof (induction rs arbitrary: num pd)
  case Nil
  then show ?case by simp
next
  case (Cons r rs)
  have "\<forall>k m. (pd(postId (h r) \<mapsto> PostDiv num)) k = Some m \<longrightarrow> (\<exists>j. m = PostDiv j)"
    using Cons.prems(2) by auto
  moreover from Cons.prems(1)
  have "postDivsOf h rs (Suc num) (pd(postId (h r) \<mapsto> PostDiv num)) k = Some m" by simp
  ultimately show ?case by (rule Cons.IH [rotated])
qed

lemma appendChild_Inr:
  assumes "appendChild t c d = Inr d'"
  shows "\<exists>tn cn. t = Some tn \<and> c = Some cn \<and> d' = d\<lparr>children := moveUnder tn cn (children d)\<rparr>"
  using assms by (auto simp: appendChild_def split: option.splits if_splits)

lemma moveUnder_subset:
  assumes "m \<in> set (moveUnder t c ch x)"
  shows "m \<in> set (ch x) \<or> m = c"
  using assms by (auto simp: moveUnder_def split: if_splits)

lemma appendChild_roots:
  assumes "appendChild t c d = Inr d'" and "topicsAreRoots d" and "\<forall>k. c \<noteq> Some (TopicDiv k)"
  shows "topicsAreRoots d'"
proof -
  from appendChild_Inr [OF assms(1)] obtain tn cn where
    c: "c = Some cn" and d': "d' = d\<lparr>children := moveUnder tn cn (children d)\<rparr>" by blast
  show ?thesis
    unfolding topicsAreRoots_def
  proof (intro allI notI)
    fix x k assume "TopicDiv k \<in> set (children d' x)"
    then have "TopicDiv k \<in> set (moveUnder tn cn (children d) x)" by (simp add: d')
    then have "TopicDiv k \<in> set (children d x) \<or> TopicDiv k = cn" by (rule moveUnder_subset)
    with assms(2,3) c show False by (auto simp: topicsAreRoots_def)
  qed
qed

lemma appendChild_member:
  assumes "appendChild t c d = Inr d'" and "m \<in> set (children d x)" and "c \<noteq> Some m"
  shows "m \<in> set (children d' x)"
proof -
  from appendChild_Inr [OF assms(1)] obtain tn cn where
    c: "c = Some cn" and d': "d' = d\<lparr>children := moveUnder tn cn (children d)\<rparr>" by blast
  from assms(3) c have "m \<noteq> cn" by simp
  with assms(2) show ?thesis by (simp add: d' moveUnder_member)
qed

lemma appendChild_replies:
  assumes "appendChild t c d = Inr d'"
  shows "replies d' = replies d"
  using appendChild_Inr [OF assms] by auto

lemma reparentPost_cases:
  assumes "reparentPost h pd td r d = Inr d'"
  obtains (topic) "appendChild (td (threadKey (h r))) (pd (postId (h r))) d = Inr d'"
  | (reply) pdiv da db where "pd (parent (h r)) = Some pdiv"
      "da = d \<or> (da = d\<lparr>replies := (replies d)(pdiv \<mapsto> RepliesOf pdiv)\<rparr> \<and>
                 appendChild (Some pdiv) (Some (RepliesOf pdiv)) da = Inr db)"
      "da = d \<longrightarrow> db = d"
      "appendChild (replies db pdiv) (pd (postId (h r))) db = Inr d'"
proof (cases "parent (h r) \<noteq> -1 \<and> pd (parent (h r)) \<noteq> None")
  case False
  with assms have "appendChild (td (threadKey (h r))) (pd (postId (h r))) d = Inr d'"
    by (auto simp: reparentPost_def Let_def split: if_splits option.splits)
  then show ?thesis by (rule topic)
next
  case True
  then obtain pdiv where p: "pd (parent (h r)) = Some pdiv" and n: "parent (h r) \<noteq> -1" by auto
  show ?thesis
  proof (cases "replies d pdiv")
    case (Some x)
    with assms p n have "appendChild (replies d pdiv) (pd (postId (h r))) d = Inr d'"
      by (simp add: reparentPost_def Let_def)
    with p show ?thesis by (intro reply [of pdiv d d]) simp_all
  next
    case None
    let ?da = "d\<lparr>replies := (replies d)(pdiv \<mapsto> RepliesOf pdiv)\<rparr>"
    from assms p n None obtain db where
      a: "appendChild (Some pdiv) (Some (RepliesOf pdiv)) ?da = Inr db"
      and b: "appendChild (replies db pdiv) (pd (postId (h r))) db = Inr d'"
      by (auto simp: reparentPost_def Let_def split: sum.splits)
    have "?da \<noteq> d"
    proof
      assume "?da = d"
      then have "replies ?da pdiv = replies d pdiv" by simp
      with None show False by simp
    qed
    with p a b show ?thesis by (intro reply [of pdiv ?da db]) simp_all
  qed
qed

lemma reparentPost_roots:
  assumes "reparentPost h pd td r d = Inr d'" and "topicsAreRoots d"
    and "\<forall>k m. pd k = Some m \<longrightarrow> (\<exists>j. m = PostDiv j)"
  shows "topicsAreRoots d'"
  using assms(1)
proof (cases rule: reparentPost_cases)
  case topic
  then show ?thesis
    by (rule appendChild_roots) (use assms(2,3) in auto)
next
  case (reply pdiv da db)
  have "topicsAreRoots db"
  proof (cases "da = d")
    case True
    with reply(3) assms(2) show ?thesis by simp
  next
    case False
    with reply(2) have da: "da = d\<lparr>replies := (replies d)(pdiv \<mapsto> RepliesOf pdiv)\<rparr>"
      and ap: "appendChild (Some pdiv) (Some (RepliesOf pdiv)) da = Inr db" by auto
    from assms(2) have "topicsAreRoots da" by (simp add: da topicsAreRoots_def)
    with ap show ?thesis by (rule appendChild_roots) simp
  qed
  with reply(4) show ?thesis
    by (rule appendChild_roots) (use assms(3) in auto)
qed

lemma reparentPost_member:
  assumes "reparentPost h pd td r d = Inr d'" and "m \<in> set (children d x)"
    and "pd (postId (h r)) \<noteq> Some m" and "\<forall>y. m \<noteq> RepliesOf y"
  shows "m \<in> set (children d' x)"
  using assms(1)
proof (cases rule: reparentPost_cases)
  case topic
  then show ?thesis using assms(2,3) by (rule appendChild_member)
next
  case (reply pdiv da db)
  have "m \<in> set (children db x)"
  proof (cases "da = d")
    case True
    with reply(3) assms(2) show ?thesis by simp
  next
    case False
    with reply(2) have da: "da = d\<lparr>replies := (replies d)(pdiv \<mapsto> RepliesOf pdiv)\<rparr>"
      and ap: "appendChild (Some pdiv) (Some (RepliesOf pdiv)) da = Inr db" by auto
    from assms(2) have "m \<in> set (children da x)" by (simp add: da)
    with ap show ?thesis by (rule appendChild_member) (use assms(4) in blast)
  qed
  with reply(4) show ?thesis using assms(3) by (rule appendChild_member)
qed

lemma reparentPost_orphan:
  assumes "parent (h r) \<noteq> -1" and "pd (parent (h r)) = None"
    and "td (threadKey (h r)) = Some (TopicDiv k)" and "pd (postId (h r)) = Some (PostDiv j)"
    and "topicsAreRoots d"
  shows "reparentPost h pd td r d =
           Inr (d\<lparr>children := moveUnder (TopicDiv k) (PostDiv j) (children d)\<rparr>)"
proof -
  have "appendChild (Some (TopicDiv k)) (Some (PostDiv j)) d =
          Inr (d\<lparr>children := moveUnder (TopicDiv k) (PostDiv j) (children d)\<rparr>)"
    by (rule appendChild_root) (use assms(5) in \<open>simp_all add: topicsAreRoots_def\<close>)
  with assms(1-4) show ?thesis by (simp add: reparentPost_def Let_def)
qed

lemma reparentPosts_append:
  "reparentPosts h pd td (xs @ ys) d =
     (case reparentPosts h pd td xs d of
        Inl err \<Rightarrow> Inl err
      | Inr d' \<Rightarrow> reparentPosts h pd td ys d')"
  by (induction xs arbitrary: d) (simp_all split: sum.splits)

lemma reparentPosts_roots:
  assumes "reparentPosts h pd td rs d = Inr d'" and "topicsAreRoots d"
    and "\<forall>k m. pd k = Some m \<longrightarrow> (\<exists>j. m = PostDiv j)"
  shows "topicsAreRoots d'"
  using assms(1,2)
proof (induction rs arbitrary: d)
  case Nil
  then show ?case by simp
next
  case (Cons r rs)
  from Cons.prems(1) obtain d1 where s: "reparentPost h pd td r d = Inr d1"
    and t: "reparentPosts h pd td rs d1 = Inr d'"
    by (auto split: sum.splits)
  from s Cons.prems(2) assms(3) have "topicsAreRoots d1" by (rule reparentPost_roots)
  with t show ?case by (rule Cons.IH)
qed

lemma reparentPosts_member:
  assumes "reparentPosts h pd td rs d = Inr d'" and "m \<in> set (children d x)"
    and "\<forall>r\<in>set rs. pd (postId (h r)) \<noteq> Some m" and "\<forall>y. m \<noteq> RepliesOf y"
  shows "m \<in> set (children d' x)"
  using assms(1,2,3)
proof (induction rs arbitrary: d)
  case Nil
  then show ?case by simp
next
  case (Cons r rs)
  from Cons.prems(1) obtain d1 where s: "reparentPost h pd td r d = Inr d1"
    and t: "reparentPosts h pd td rs d1 = Inr d'"
    by (auto split: sum.splits)
  from Cons.prems(3) have "pd (postId (h r)) \<noteq> Some m" by simp
  with s Cons.prems(2) have "m \<in> set (children d1 x)"
    using assms(4) by (rule reparentPost_member)
  moreover from Cons.prems(3) have "\<forall>r\<in>set rs. pd (postId (h r)) \<noteq> Some m" by simp
  ultimately show ?case using t by (intro Cons.IH)
qed

section \<open>Replies without a rendered parent\<close>

lemma updateForumData_heap:
  assumes "updateForumData posts fs now s = Some s1"
  shows "heap s1 = withThreadIds (heap s) (postHash s1) posts"
    and "\<forall>r\<in>set posts. getOldestPostInThread (heap s) (postHash s1) r \<noteq> None"
  using assms
  by (auto simp: updateForumData_def updatePostHash_eq addThreadIds_eq updateThreadHash_eq Let_def
      split: if_splits)

lemma updateForumData_threadId:
  assumes "updateForumData posts fs now s = Some s1" and "r \<in> set posts"
  shows "\<exists>k. threadId (heap s1 r) = Some k \<and> threadKey (heap s1 r) = k"
proof -
  note f = updateForumData_heap [OF assms(1)]
  from f(2) assms(2) obtain q where "getOldestPostInThread (heap s) (postHash s1) r = Some q"
    by auto
  then show ?thesis
    using assms(2) by (subst (1 2) f(1)) (simp add: withThreadIds_def threadIdOf_def threadKey_def)
qed

lemma parseContent_Inr:
  assumes "parseContent e posts context now s = Some (Inr d, s1)"
  shows "\<exists>td pd d3.
      updateForumData posts (fullSet (getOptionsForContext context)) now s = Some s1 \<and>
      makeTopicDivs s1 (showItemLink (getOptionsForContext context)) posts Map.empty = Some (Inr td) \<and>
      makePostDivs e s1 (showReplyButton (getOptionsForContext context)) posts 0 Map.empty
        = Some (Inr pd) \<and>
      reparentPosts (heap s1) pd td posts emptyDom = Inr d3 \<and>
      filterAndAssembleForumThreads e s1 posts td (applyFilter (getOptionsForContext context))
        (showThreadCount (getOptionsForContext context)) d3 = Inr d"
  using assms
  by (auto simp: parseContent_def Let_def split: option.splits sum.splits)

lemma topicDivsOf_post:
  assumes "r \<in> set posts" and "threadKey (h r) = k"
  shows "topicDivsOf h posts Map.empty k = Some (TopicDiv k)"
  using assms by (auto simp: topicDivsOf_def)

lemma postDivsOf_empty_range:
  assumes "postDivsOf h rs num Map.empty k = Some m"
  shows "\<exists>j. m = PostDiv j"
  using assms by (rule postDivsOf_range) simp

lemma emptyDom_roots: "topicsAreRoots emptyDom"
  by (simp add: topicsAreRoots_def emptyDom_def)

lemma orphan_step:
  assumes upd: "updateForumData posts fs now s = Some s1"
    and mtd: "makeTopicDivs s1 showLink posts Map.empty = Some (Inr topicDivs)"
    and mpd: "makePostDivs e s1 showReply posts 0 Map.empty = Some (Inr postDivs)"
    and i: "i < length posts"
    and reply: "parent (heap s1 (posts ! i)) \<noteq> -1"
    and orphan: "postDivs (parent (heap s1 (posts ! i))) = None"
    and k: "threadId (heap s1 (posts ! i)) = Some k"
    and pre: "reparentPosts (heap s1) postDivs topicDivs (take i posts) emptyDom = Inr d0"
  shows "\<exists>d1 j. reparentPost (heap s1) postDivs topicDivs (posts ! i) d0 = Inr d1 \<and>
                postDivs (postId (heap s1 (posts ! i))) = Some (PostDiv j) \<and>
                PostDiv j \<in> set (children d1 (TopicDiv k))"
proof -
  let ?h = "heap s1"
  let ?r = "posts ! i"
  have rin: "?r \<in> set posts" using i by simp
  have key: "threadKey (?h ?r) = k" using k by (simp add: threadKey_def)
  have td: "topicDivs = topicDivsOf ?h posts Map.empty"
    using mtd by (rule makeTopicDivs_eq)
  have pd: "postDivs = postDivsOf ?h posts 0 Map.empty"
    using mpd by (rule makePostDivs_eq)
  have tdk: "topicDivs (threadKey (?h ?r)) = Some (TopicDiv k)"
    unfolding td key using rin key by (rule topicDivsOf_post)
  have pdr: "\<forall>k m. postDivs k = Some m \<longrightarrow> (\<exists>j. m = PostDiv j)"
    unfolding pd using postDivsOf_empty_range by blast
  have "\<exists>j. postDivs (postId (?h ?r)) = Some (PostDiv j)"
    unfolding pd by (rule postDivsOf_member) (use rin in blast)
  then obtain j where j: "postDivs (postId (?h ?r)) = Some (PostDiv j)" ..
  from pre emptyDom_roots pdr have roots: "topicsAreRoots d0" by (rule reparentPosts_roots)
  have "reparentPost ?h postDivs topicDivs ?r d0 =
          Inr (d0\<lparr>children := moveUnder (TopicDiv k) (PostDiv j) (children d0)\<rparr>)"
    using reply orphan tdk j roots by (rule reparentPost_orphan)
  moreover have "PostDiv j \<in> set (children
      (d0\<lparr>children := moveUnder (TopicDiv k) (PostDiv j) (children d0)\<rparr>) (TopicDiv k))"
    by (simp add: moveUnder_def)
  ultimately show ?thesis using j by blast
qed

lemma orphan_final:
  assumes pc: "parseContent e posts context now s = Some (Inr d, s1)"
    and i: "i < length posts"
    and reply: "parent (heap s1 (posts ! i)) \<noteq> -1"
    and orphan: "\<forall>r\<in>set posts. postId (heap s1 r) \<noteq> parent (heap s1 (posts ! i))"
    and k: "threadId (heap s1 (posts ! i)) = Some k"
    and dist: "distinct (map (\<lambda>r. postId (heap s1 r)) posts)"
  shows "PostDiv i \<in> set (children d (TopicDiv k)) \<and>
         (TopicDiv k \<in> set (children d Fragment) \<longleftrightarrow>
            k \<in> set (getFilteredThreadIds e (threadPostsOf s1)
                       (applyFilter (getOptionsForContext context))))"
proof -
  let ?h = "heap s1"
  let ?r = "posts ! i"
  let ?opts = "getOptionsForContext context"
  let ?flt = "getFilteredThreadIds e (threadPostsOf s1) (applyFilter ?opts)"
  let ?ids = "assembledIds ?h posts ?flt"
  have rin: "?r \<in> set posts" using i by simp
  from parseContent_Inr [OF pc] obtain topicDivs postDivs d3 where
    upd: "updateForumData posts (fullSet ?opts) now s = Some s1"
    and mtd: "makeTopicDivs s1 (showItemLink ?opts) posts Map.empty = Some (Inr topicDivs)"
    and mpd: "makePostDivs e s1 (showReplyButton ?opts) posts 0 Map.empty = Some (Inr postDivs)"
    and rp: "reparentPosts ?h postDivs topicDivs posts emptyDom = Inr d3"
    and fa: "filterAndAssembleForumThreads e s1 posts topicDivs (applyFilter ?opts)
               (showThreadCount ?opts) d3 = Inr d"
    by blast
  have td: "topicDivs = topicDivsOf ?h posts Map.empty"
    using mtd by (rule makeTopicDivs_eq)
  have pd: "postDivs = postDivsOf ?h posts 0 Map.empty"
    using mpd by (rule makePostDivs_eq)
  have "parent (?h ?r) \<notin> (\<lambda>r. postId (?h r)) ` set posts"
    using orphan by (auto simp: image_iff)
  then have none: "postDivs (parent (?h ?r)) = None"
    unfolding pd by (simp add: postDivsOf_other)
  have nth: "postDivs (postId (?h (posts ! n))) = Some (PostDiv n)" if "n < length posts" for n
    unfolding pd using postDivsOf_nth [OF dist that, of 0 Map.empty] by simp
  have split: "posts = take i posts @ ?r # drop (Suc i) posts"
    using i by (simp add: id_take_nth_drop)
  from rp obtain d0 d1 where
    a: "reparentPosts ?h postDivs topicDivs (take i posts) emptyDom = Inr d0"
    and b: "reparentPost ?h postDivs topicDivs ?r d0 = Inr d1"
    and c: "reparentPosts ?h postDivs topicDivs (drop (Suc i) posts) d1 = Inr d3"
    by (subst (asm) split) (auto simp: reparentPosts_append split: sum.splits)
  from orphan_step [OF upd mtd mpd i reply none k a] b nth [OF i]
  have m1: "PostDiv i \<in> set (children d1 (TopicDiv k))" by auto
  have later: "\<forall>r\<in>set (drop (Suc i) posts). postDivs (postId (?h r)) \<noteq> Some (PostDiv i)"
  proof
    fix r assume "r \<in> set (drop (Suc i) posts)"
    then obtain n where n: "n < length (drop (Suc i) posts)" "r = drop (Suc i) posts ! n"
      by (auto simp: in_set_conv_nth)
    then have "r = posts ! (Suc i + n)" and "Suc i + n < length posts" by auto
    with nth [of "Suc i + n"] show "postDivs (postId (?h r)) \<noteq> Some (PostDiv i)" by simp
  qed
  from c m1 later have m3: "PostDiv i \<in> set (children d3 (TopicDiv k))"
    by (rule reparentPosts_member) simp
  have cover: "\<forall>k\<in>set ?ids. topicDivs k = Some (TopicDiv k)"
  proof
    fix k' assume "k' \<in> set ?ids"
    then obtain r where r: "r \<in> set posts" "threadId (?h r) = Some k'"
      by (auto simp: assembledIds_set)
    then have "threadKey (?h r) = k'" by (simp add: threadKey_def)
    with r(1) show "topicDivs k' = Some (TopicDiv k')"
      unfolding td by (rule topicDivsOf_post)
  qed
  from filterAndAssemble_eq [OF cover, of "showThreadCount ?opts" d3] fa
  have ch: "children d Fragment = (if showThreadCount ?opts then [CountEl] else []) @ map TopicDiv ?ids"
    and keep: "\<forall>x m. x \<noteq> Fragment \<longrightarrow> x \<noteq> CountEl \<longrightarrow> m \<in> set (children d3 x) \<longrightarrow>
               (\<forall>k. m \<noteq> TopicDiv k) \<longrightarrow> m \<noteq> Fragment \<longrightarrow> m \<noteq> CountEl \<longrightarrow> m \<in> set (children d x)"
    by auto
  from keep m3 have "PostDiv i \<in> set (children d (TopicDiv k))" by simp
  moreover have "TopicDiv k \<in> set (children d Fragment) \<longleftrightarrow> k \<in> set ?flt"
    using rin k by (auto simp: ch assembledIds_set)
  ultimately show ?thesis by simp
qed

text \<open>
  C4, as the code has it. Let a reply of the list have no rendered post node for its parent
  id. Whenever the third loop of \<^verbatim>\<open>parseContent\<close> reaches the reply, its step returns
  without an exception and puts the node stored under the reply's id under the container of
  the reply's thread. If moreover the ids of the list are pairwise distinct and
  \<^verbatim>\<open>parseContent\<close> returns, the reply's own node is a child of that container in the
  result, and the container is in the returned fragment exactly when its thread id is among
  the filter-passing ids.
\<close>

theorem orphan_reply_attached:
  assumes upd: "updateForumData posts (fullSet (getOptionsForContext context)) now s = Some s1"
    and mtd: "makeTopicDivs s1 (showItemLink (getOptionsForContext context)) posts Map.empty
                = Some (Inr topicDivs)"
    and mpd: "makePostDivs e s1 (showReplyButton (getOptionsForContext context)) posts 0 Map.empty
                = Some (Inr postDivs)"
    and i: "i < length posts"
    and reply: "parent (heap s1 (posts ! i)) \<noteq> -1"
    and orphan: "postDivs (parent (heap s1 (posts ! i))) = None"
  shows "\<exists>k. threadId (heap s1 (posts ! i)) = Some k \<and>
     (\<forall>d0. reparentPosts (heap s1) postDivs topicDivs (take i posts) emptyDom = Inr d0 \<longrightarrow>
        (\<exists>d1 j. reparentPost (heap s1) postDivs topicDivs (posts ! i) d0 = Inr d1 \<and>
                postDivs (postId (heap s1 (posts ! i))) = Some (PostDiv j) \<and>
                PostDiv j \<in> set (children d1 (TopicDiv k)))) \<and>
     (distinct (map (\<lambda>r. postId (heap s1 r)) posts) \<longrightarrow>
        (\<forall>d. parseContent e posts context now s = Some (Inr d, s1) \<longrightarrow>
           PostDiv i \<in> set (children d (TopicDiv k)) \<and>
           (TopicDiv k \<in> set (children d Fragment) \<longleftrightarrow>
              k \<in> set (getFilteredThreadIds e (threadPostsOf s1)
                         (applyFilter (getOptionsForContext context))))))"
proof -
  have rin: "posts ! i \<in> set posts" using i by simp
  from updateForumData_threadId [OF upd rin]
  obtain k where k: "threadId (heap s1 (posts ! i)) = Some k" by blast
  have pd: "postDivs = postDivsOf (heap s1) posts 0 Map.empty"
    using mpd by (rule makePostDivs_eq)
  have absent: "\<forall>r\<in>set posts. postId (heap s1 r) \<noteq> parent (heap s1 (posts ! i))"
  proof
    fix r assume "r \<in> set posts"
    then have "\<exists>j. postDivs (postId (heap s1 r)) = Some (PostDiv j)"
      unfolding pd by (intro postDivsOf_member) blast
    with orphan show "postId (heap s1 r) \<noteq> parent (heap s1 (posts ! i))" by auto
  qed
  show ?thesis
  proof (intro exI [of _ k] conjI allI impI)
    show "threadId (heap s1 (posts ! i)) = Some k" by (rule k)
  next
    fix d0 assume "reparentPosts (heap s1) postDivs topicDivs (take i posts) emptyDom = Inr d0"
    with upd mtd mpd i reply orphan k
    show "\<exists>d1 j. reparentPost (heap s1) postDivs topicDivs (posts ! i) d0 = Inr d1 \<and>
                postDivs (postId (heap s1 (posts ! i))) = Some (PostDiv j) \<and>
                PostDiv j \<in> set (children d1 (TopicDiv k))"
      by (rule orphan_step)
  next
    fix d assume dist: "distinct (map (\<lambda>r. postId (heap s1 r)) posts)"
      and pc: "parseContent e posts context now s = Some (Inr d, s1)"
    from orphan_final [OF pc i reply absent k dist]
    show "PostDiv i \<in> set (children d (TopicDiv k))"
      and "TopicDiv k \<in> set (children d Fragment) \<longleftrightarrow>
            k \<in> set (getFilteredThreadIds e (threadPostsOf s1)
                       (applyFilter (getOptionsForContext context)))"
      by simp_all
  qed
qed

section \<open>Rendering the example lists\<close>

lemma context_opts:
  "fullSet (getOptionsForContext ''main'') = True"
  "showItemLink (getOptionsForContext ''main'') = True"
  "showReplyButton (getOptionsForContext ''main'') = True"
  "applyFilter (getOptionsForContext ''main'') = True"
  "showThreadCount (getOptionsForContext ''main'') = True"
  "fullSet (getOptionsForContext ''summary'') = True"
  "showItemLink (getOptionsForContext ''summary'') = False"
  "showReplyButton (getOptionsForContext ''summary'') = False"
  "applyFilter (getOptionsForContext ''summary'') = True"
  "showThreadCount (getOptionsForContext ''summary'') = False"
  by (simp_all add: getOptionsForContext_def getDefaultParseOptions_def)

lemma exampleEnv_filter:
  "getFilteredThreadIds (exampleEnv u tc cl ps) th flt = ps"
  by (simp add: exampleEnv_def)

lemma orphanIndexed_eq: "updateForumData [0, 1] True 7 orphanState = Some orphanIndexed"
proof -
  have "updateForumData [0, 1] True 7 orphanState \<noteq> None"
    by (simp add: eval_defs orphanState_def orphanHeap_def)
  then show ?thesis by (auto simp: orphanIndexed_def)
qed

lemma orphanIndexed_fields:
  "heap orphanIndexed 0 = blankPost\<lparr>postId := 9, parent := 5, postLocale := ''fr'',
      subject := Some ''Re: a | b'', threadId := Some ''fr|9''\<rparr>"
  "heap orphanIndexed (Suc 0) = blankPost\<lparr>postId := 3, parent := -1, postLocale := ''fr'',
      subject := Some ''c | d'', threadId := Some ''fr|3''\<rparr>"
  "postHash orphanIndexed = [9 \<mapsto> 0, 3 \<mapsto> 1]"
  "threadHash orphanIndexed = [''fr|9'' \<mapsto> [0], ''fr|3'' \<mapsto> [1]]"
  by (simp_all add: orphanIndexed_def eval_defs orphanState_def orphanHeap_def)

lemma orphan_topicDivs:
  "makeTopicDivs orphanIndexed True [0, 1] Map.empty = Some (Inr orphanTopicDivs)"
  by (simp add: orphanIndexed_fields threadKey_def blankPost_def getOldestPostInThread.simps
      addThreadSubjectSpan_def Let_def orphanTopicDivs_def)

lemma orphan_postDivs:
  "makePostDivs (exampleEnv (JNum 8) False False ps) orphanIndexed True [0, 1] 0 Map.empty =
     Some (Inr orphanPostDivs)"
  by (simp add: orphanIndexed_fields threadKey_def blankPost_def getOldestPostInThread.simps
      getNewestPostInThread_def addReplyButtons_def getStatusOptions_def userCanClose_def
      threadIsClosed_def exampleEnv_def userIsPoster_def userIsTC_def truthy_def Let_def
      orphanPostDivs_def)

lemma orphan_step_0:
  "\<exists>d1. reparentPost (heap orphanIndexed) orphanPostDivs orphanTopicDivs 0 emptyDom = Inr d1 \<and>
        PostDiv 0 \<in> set (children d1 (TopicDiv ''fr|9''))"
  by (simp add: orphanIndexed_fields reparentPost_def threadKey_def blankPost_def
      appendChild_root emptyDom_def moveUnder_def Let_def orphanPostDivs_def orphanTopicDivs_def)

lemma orphan_reparent:
  "\<exists>d. reparentPosts (heap orphanIndexed) orphanPostDivs orphanTopicDivs [0, 1] emptyDom = Inr d"
  by (simp add: orphanIndexed_fields reparentPost_def threadKey_def blankPost_def
      appendChild_root emptyDom_def moveUnder_def Let_def orphanPostDivs_def orphanTopicDivs_def)

lemma orphan_ids:
  "assembledIds (heap orphanIndexed) [0, 1] [''fr|3'', ''fr|9''] = [''fr|9'', ''fr|3'']"
  "assembledIds (heap orphanIndexed) [0, 1] [] = []"
  by (simp_all add: orphanIndexed_fields blankPost_def)

lemma orphan_parseContent:
  assumes "assembledIds (heap orphanIndexed) [0, 1] ps = ids"
    and "\<forall>k\<in>set ids. orphanTopicDivs k = Some (TopicDiv k)"
  shows "\<exists>d. parseContent (exampleEnv (JNum 8) False False ps) [0, 1] ''main'' 7 orphanState =
          Some (Inr d, orphanIndexed) \<and>
        children d Fragment = CountEl # map TopicDiv ids"
proof -
  let ?e = "exampleEnv (JNum 8) False False ps"
  from orphan_reparent obtain d3 where d3:
    "reparentPosts (heap orphanIndexed) orphanPostDivs orphanTopicDivs [0, 1] emptyDom = Inr d3"
    ..
  have cover: "\<forall>k\<in>set (assembledIds (heap orphanIndexed) [0, 1]
                  (getFilteredThreadIds ?e (threadPostsOf orphanIndexed) True)).
                 orphanTopicDivs k = Some (TopicDiv k)"
    unfolding exampleEnv_filter assms(1) by (rule assms(2))
  from filterAndAssemble_eq [OF cover, of True d3]
  obtain d where d: "filterAndAssembleForumThreads ?e orphanIndexed [0, 1] orphanTopicDivs True True d3 = Inr d"
    and c0: "children d Fragment = (if True then [CountEl] else []) @ map TopicDiv
        (assembledIds (heap orphanIndexed) [0, 1]
           (getFilteredThreadIds ?e (threadPostsOf orphanIndexed) True))"
    by blast
  have c: "children d Fragment = CountEl # map TopicDiv ids"
    unfolding c0 exampleEnv_filter assms(1) by simp
  have "parseContent ?e [0, 1] ''main'' 7 orphanState = Some (Inr d, orphanIndexed)"
    unfolding parseContent_def Let_def context_opts orphanIndexed_eq option.case orphan_topicDivs
      sum.case orphan_postDivs d3 d
    by (rule refl)
  with c show ?thesis by blast
qed

text \<open>
  The reply to the missing post 5, in the main view with both threads passing the filter.
\<close>

theorem orphan_reply_attached_witness:
  "updateForumData [0, 1] (fullSet (getOptionsForContext ''main'')) 7 orphanState = Some orphanIndexed \<and>
   makeTopicDivs orphanIndexed (showItemLink (getOptionsForContext ''main'')) [0, 1] Map.empty
     = Some (Inr orphanTopicDivs) \<and>
   makePostDivs (exampleEnv (JNum 8) False False [''fr|3'', ''fr|9'']) orphanIndexed
     (showReplyButton (getOptionsForContext ''main'')) [0, 1] 0 Map.empty = Some (Inr orphanPostDivs) \<and>
   0 < length [0, 1 :: nat] \<and>
   parent (heap orphanIndexed ([0, 1] ! 0)) \<noteq> -1 \<and>
   orphanPostDivs (parent (heap orphanIndexed ([0, 1] ! 0))) = None \<and>
   distinct (map (\<lambda>r. postId (heap orphanIndexed r)) [0, 1]) \<and>
   threadId (heap orphanIndexed ([0, 1] ! 0)) = Some ''fr|9'' \<and>
   (\<exists>d1 j. reparentPost (heap orphanIndexed) orphanPostDivs orphanTopicDivs ([0, 1] ! 0) emptyDom = Inr d1 \<and>
      orphanPostDivs (postId (heap orphanIndexed ([0, 1] ! 0))) = Some (PostDiv j) \<and>
      PostDiv j \<in> set (children d1 (TopicDiv ''fr|9''))) \<and>
   (\<exists>d. parseContent (exampleEnv (JNum 8) False False [''fr|3'', ''fr|9'']) [0, 1] ''main'' 7 orphanState
          = Some (Inr d, orphanIndexed) \<and>
        PostDiv 0 \<in> set (children d (TopicDiv ''fr|9'')) \<and>
        TopicDiv ''fr|9'' \<in> set (children d Fragment) \<and>
        children d Fragment = [CountEl, TopicDiv ''fr|9'', TopicDiv ''fr|3''])"
proof -
  let ?e = "exampleEnv (JNum 8) False False [''fr|3'', ''fr|9'']"
  have h1: "updateForumData [0, 1] (fullSet (getOptionsForContext ''main'')) 7 orphanState
            = Some orphanIndexed"
    unfolding context_opts by (rule orphanIndexed_eq)
  have h2: "makeTopicDivs orphanIndexed (showItemLink (getOptionsForContext ''main'')) [0, 1] Map.empty
            = Some (Inr orphanTopicDivs)"
    unfolding context_opts by (rule orphan_topicDivs)
  have h3: "makePostDivs ?e orphanIndexed (showReplyButton (getOptionsForContext ''main'')) [0, 1] 0
              Map.empty = Some (Inr orphanPostDivs)"
    unfolding context_opts by (rule orphan_postDivs)
  have h4: "0 < length [0, 1 :: nat]" by simp
  have h5: "parent (heap orphanIndexed ([0, 1] ! 0)) \<noteq> -1"
    by (simp add: orphanIndexed_fields blankPost_def)
  have h6: "orphanPostDivs (parent (heap orphanIndexed ([0, 1] ! 0))) = None"
    by (simp add: orphanIndexed_fields blankPost_def orphanPostDivs_def)
  have dist: "distinct (map (\<lambda>r. postId (heap orphanIndexed r)) [0, 1])"
    by (simp add: orphanIndexed_fields blankPost_def)
  have tid: "threadId (heap orphanIndexed ([0, 1] ! 0)) = Some ''fr|9''"
    by (simp add: orphanIndexed_fields blankPost_def)
  have pre: "reparentPosts (heap orphanIndexed) orphanPostDivs orphanTopicDivs (take 0 [0, 1]) emptyDom
             = Inr emptyDom"
    by simp
  from orphan_parseContent [OF orphan_ids(1)]
  obtain d where d: "parseContent ?e [0, 1] ''main'' 7 orphanState = Some (Inr d, orphanIndexed)"
    and c: "children d Fragment = CountEl # map TopicDiv [''fr|9'', ''fr|3'']"
    by (auto simp: orphanTopicDivs_def)
  from orphan_reply_attached [OF h1 h2 h3 h4 h5 h6] tid
  have step: "\<forall>d0. reparentPosts (heap orphanIndexed) orphanPostDivs orphanTopicDivs (take 0 [0, 1]) emptyDom = Inr d0 \<longrightarrow>
        (\<exists>d1 j. reparentPost (heap orphanIndexed) orphanPostDivs orphanTopicDivs ([0, 1] ! 0) d0 = Inr d1 \<and>
                orphanPostDivs (postId (heap orphanIndexed ([0, 1] ! 0))) = Some (PostDiv j) \<and>
                PostDiv j \<in> set (children d1 (TopicDiv ''fr|9'')))"
    and fin: "distinct (map (\<lambda>r. postId (heap orphanIndexed r)) [0, 1]) \<longrightarrow>
        (\<forall>d. parseContent ?e [0, 1] ''main'' 7 orphanState = Some (Inr d, orphanIndexed) \<longrightarrow>
           PostDiv 0 \<in> set (children d (TopicDiv ''fr|9'')) \<and>
           (TopicDiv ''fr|9'' \<in> set (children d Fragment) \<longleftrightarrow>
              ''fr|9'' \<in> set (getFilteredThreadIds ?e (threadPostsOf orphanIndexed)
                         (applyFilter (getOptionsForContext ''main'')))))"
    by auto
  from step pre have s1: "\<exists>d1 j. reparentPost (heap orphanIndexed) orphanPostDivs orphanTopicDivs ([0, 1] ! 0) emptyDom = Inr d1 \<and>
      orphanPostDivs (postId (heap orphanIndexed ([0, 1] ! 0))) = Some (PostDiv j) \<and>
      PostDiv j \<in> set (children d1 (TopicDiv ''fr|9''))"
    by blast
  from fin dist d have f1: "PostDiv 0 \<in> set (children d (TopicDiv ''fr|9''))"
    and f2: "TopicDiv ''fr|9'' \<in> set (children d Fragment)"
    by (auto simp: exampleEnv_filter)
  have c': "children d Fragment = [CountEl, TopicDiv ''fr|9'', TopicDiv ''fr|3'']"
    using c by simp
  have last: "\<exists>d. parseContent ?e [0, 1] ''main'' 7 orphanState = Some (Inr d, orphanIndexed) \<and>
        PostDiv 0 \<in> set (children d (TopicDiv ''fr|9'')) \<and>
        TopicDiv ''fr|9'' \<in> set (children d Fragment) \<and>
        children d Fragment = [CountEl, TopicDiv ''fr|9'', TopicDiv ''fr|3'']"
    by (rule exI [of _ d]) (intro conjI d f1 f2 c')
  show ?thesis
    by (intro conjI h1 h2 h3 h4 h5 h6 dist tid s1 last)
qed

lemma twinIndexed_eq: "updateForumData [0, 1] True 7 twinState = Some twinIndexed"
proof -
  have "updateForumData [0, 1] True 7 twinState \<noteq> None"
    by (simp add: eval_defs twinState_def twinHeap_def)
  then show ?thesis by (auto simp: twinIndexed_def)
qed

lemma twinIndexed_fields:
  "heap twinIndexed 0 = blankPost\<lparr>postId := 1, parent := 99, postLocale := ''fr'',
      threadId := Some ''fr|1''\<rparr>"
  "heap twinIndexed (Suc 0) = blankPost\<lparr>postId := 1, parent := -1, postLocale := ''de'',
      threadId := Some ''de|1''\<rparr>"
  by (simp_all add: twinIndexed_def eval_defs twinState_def twinHeap_def)

lemma twin_topicDivs:
  "makeTopicDivs twinIndexed False [0, 1] Map.empty = Some (Inr twinTopicDivs)"
  by (simp add: twinIndexed_fields threadKey_def blankPost_def Let_def twinTopicDivs_def)

lemma twin_postDivs:
  "makePostDivs (exampleEnv (JNum 8) False False ps) twinIndexed False [0, 1] 0 Map.empty =
     Some (Inr twinPostDivs)"
  by (simp add: twinIndexed_fields blankPost_def Let_def twinPostDivs_def exampleEnv_def)

lemma twin_reparent:
  "\<exists>d. reparentPosts (heap twinIndexed) twinPostDivs twinTopicDivs [0, 1] emptyDom = Inr d \<and>
       children d (TopicDiv ''fr|1'') = []"
  by (simp add: twinIndexed_fields reparentPost_def threadKey_def blankPost_def
      appendChild_root emptyDom_def moveUnder_def Let_def twinPostDivs_def twinTopicDivs_def)

lemma twin_ids:
  "assembledIds (heap twinIndexed) [0, 1] [''fr|1'', ''de|1''] = [''fr|1'', ''de|1'']"
  by (simp add: twinIndexed_fields blankPost_def)

lemma twin_parseContent:
  "\<exists>d. parseContent (exampleEnv (JNum 8) False False [''fr|1'', ''de|1'']) [0, 1] ''summary'' 7 twinState =
          Some (Inr d, twinIndexed) \<and>
        children d Fragment = [TopicDiv ''fr|1'', TopicDiv ''de|1''] \<and>
        children d (TopicDiv ''fr|1'') = []"
proof -
  let ?e = "exampleEnv (JNum 8) False False [''fr|1'', ''de|1'']"
  from twin_reparent obtain d3 where d3:
    "reparentPosts (heap twinIndexed) twinPostDivs twinTopicDivs [0, 1] emptyDom = Inr d3"
    and e3: "children d3 (TopicDiv ''fr|1'') = []"
    by blast
  have cover: "\<forall>k\<in>set (assembledIds (heap twinIndexed) [0, 1]
                  (getFilteredThreadIds ?e (threadPostsOf twinIndexed) True)).
                 twinTopicDivs k = Some (TopicDiv k)"
    unfolding exampleEnv_filter twin_ids by (simp add: twinTopicDivs_def)
  from filterAndAssemble_eq [OF cover, of False d3]
  obtain d where d: "filterAndAssembleForumThreads ?e twinIndexed [0, 1] twinTopicDivs True False d3 = Inr d"
    and c0: "children d Fragment = (if False then [CountEl] else []) @ map TopicDiv
        (assembledIds (heap twinIndexed) [0, 1]
           (getFilteredThreadIds ?e (threadPostsOf twinIndexed) True))"
    and u: "\<forall>x. x \<noteq> Fragment \<longrightarrow> set (children d x) \<subseteq> set (children d3 x)"
    by blast
  have c: "children d Fragment = [TopicDiv ''fr|1'', TopicDiv ''de|1'']"
    unfolding c0 exampleEnv_filter twin_ids by simp
  from u have "set (children d (TopicDiv ''fr|1'')) \<subseteq> set (children d3 (TopicDiv ''fr|1''))"
    by blast
  with e3 have e: "children d (TopicDiv ''fr|1'') = []" by simp
  have "parseContent ?e [0, 1] ''summary'' 7 twinState = Some (Inr d, twinIndexed)"
    unfolding parseContent_def Let_def context_opts twinIndexed_eq option.case twin_topicDivs
      sum.case twin_postDivs d3 d
    by (rule refl)
  with c e show ?thesis by blast
qed

text \<open>
  C4 as claimed fails in two ways. When a later post of the list carries the same id as the
  reply, the node stored under that id is the later post's: it is moved on to the later
  post's thread, and the reply's thread container, though in the output, stays empty. And
  when the filter lets no thread pass, the reply hangs under its container but the returned
  fragment holds the count heading only.
\<close>

theorem orphan_reply_counterexample:
  "(case parseContent (exampleEnv (JNum 8) False False [''fr|1'', ''de|1'']) [0, 1] ''summary'' 7
          twinState of
      Some (Inr d, s1) \<Rightarrow>
        parent (heap s1 0) = 99 \<and> threadId (heap s1 0) = Some ''fr|1'' \<and>
        children d Fragment = [TopicDiv ''fr|1'', TopicDiv ''de|1''] \<and>
        children d (TopicDiv ''fr|1'') = []
    | _ \<Rightarrow> False) \<and>
   (case parseContent (exampleEnv (JNum 8) False False []) [0, 1] ''main'' 7 orphanState of
      Some (Inr d, s1) \<Rightarrow>
        parent (heap s1 0) = 5 \<and> threadId (heap s1 0) = Some ''fr|9'' \<and>
        PostDiv 0 \<in> set (children d (TopicDiv ''fr|9'')) \<and>
        children d Fragment = [CountEl]
    | _ \<Rightarrow> False)"
proof -
  from twin_parseContent obtain d where
    d: "parseContent (exampleEnv (JNum 8) False False [''fr|1'', ''de|1'']) [0, 1] ''summary'' 7 twinState
          = Some (Inr d, twinIndexed)"
    and dc: "children d Fragment = [TopicDiv ''fr|1'', TopicDiv ''de|1'']"
      "children d (TopicDiv ''fr|1'') = []"
    by blast
  have first: "parent (heap twinIndexed 0) = 99 \<and> threadId (heap twinIndexed 0) = Some ''fr|1'' \<and>
        children d Fragment = [TopicDiv ''fr|1'', TopicDiv ''de|1''] \<and>
        children d (TopicDiv ''fr|1'') = []"
    using dc by (simp add: twinIndexed_fields blankPost_def)
  have "\<forall>k\<in>set []. orphanTopicDivs k = Some (TopicDiv k)" by simp
  from orphan_parseContent [OF orphan_ids(2) this] obtain d' where
    d': "parseContent (exampleEnv (JNum 8) False False []) [0, 1] ''main'' 7 orphanState
          = Some (Inr d', orphanIndexed)"
    and dc': "children d' Fragment = [CountEl]"
    by auto
  have i: "0 < length [0, 1 :: nat]" by simp
  have r: "parent (heap orphanIndexed ([0, 1] ! 0)) \<noteq> -1"
    by (simp add: orphanIndexed_fields blankPost_def)
  have o: "\<forall>r\<in>set [0, 1]. postId (heap orphanIndexed r) \<noteq> parent (heap orphanIndexed ([0, 1] ! 0))"
    by (simp add: orphanIndexed_fields blankPost_def)
  have k: "threadId (heap orphanIndexed ([0, 1] ! 0)) = Some ''fr|9''"
    by (simp add: orphanIndexed_fields blankPost_def)
  have dist: "distinct (map (\<lambda>r. postId (heap orphanIndexed r)) [0, 1])"
    by (simp add: orphanIndexed_fields blankPost_def)
  from orphan_final [OF d' i r o k dist]
  have m: "PostDiv 0 \<in> set (children d' (TopicDiv ''fr|9''))" by simp
  have second: "parent (heap orphanIndexed 0) = 5 \<and> threadId (heap orphanIndexed 0) = Some ''fr|9'' \<and>
        PostDiv 0 \<in> set (children d' (TopicDiv ''fr|9'')) \<and> children d' Fragment = [CountEl]"
    using m dc' by (simp add: orphanIndexed_fields blankPost_def)
  show ?thesis
    unfolding d d' using first second by simp
qed

lemma mixIndexed_eq: "updateForumData [0, 1, 2, 3] True 7 mixState = Some mixIndexed"
proof -
  have "updateForumData [0, 1, 2, 3] True 7 mixState \<noteq> None"
    by (simp add: eval_defs mixState_def mixHeap_def)
  then show ?thesis by (auto simp: mixIndexed_def)
qed

lemma mixIndexed_threadIds:
  "threadId (heap mixIndexed 0) = Some ''fr|5''"
  "threadId (heap mixIndexed (Suc 0)) = Some ''de|11''"
  "threadId (heap mixIndexed 2) = Some ''fr|5''"
  "threadId (heap mixIndexed 3) = Some ''fr|5''"
  by (simp_all add: mixIndexed_def eval_defs mixState_def mixHeap_def)

lemma mix_ids:
  "assembledIds (heap mixIndexed) [0, 1, 2, 3] [''de|11'', ''fr|5'', ''fr|7''] = [''fr|5'', ''de|11'']"
  by (simp add: mixIndexed_threadIds)

text \<open>
  The two threads of the mixed list, with a filter that lists them in the other order and
  names a thread that has no post: the thread of the newest post comes first.
\<close>

theorem filterAndAssembleForumThreads_order_witness:
  "updateForumData [0, 1, 2, 3] True 7 mixState = Some mixIndexed \<and>
   map (\<lambda>r. threadId (heap mixIndexed r)) [0, 1, 2, 3] =
     [Some ''fr|5'', Some ''de|11'', Some ''fr|5'', Some ''fr|5''] \<and>
   mixTopicDivs ''fr|5'' = Some (TopicDiv ''fr|5'') \<and>
   mixTopicDivs ''de|11'' = Some (TopicDiv ''de|11'') \<and>
   (\<exists>d'. filterAndAssembleForumThreads
            (exampleEnv (JNum 8) False False [''de|11'', ''fr|5'', ''fr|7'']) mixIndexed
            [0, 1, 2, 3] mixTopicDivs True True emptyDom = Inr d' \<and>
         children d' Fragment = [CountEl, TopicDiv ''fr|5'', TopicDiv ''de|11''] \<and>
         countText d' = Some ''2 threads'') \<and>
   (\<exists>d' ks. filterAndAssembleForumThreads
            (exampleEnv (JNum 8) False False [''de|11'', ''fr|5'', ''fr|7'']) mixIndexed
            [0, 1, 2, 3] mixTopicDivs True True emptyDom = Inr d' \<and>
         children d' Fragment = [CountEl] @ map TopicDiv ks \<and> distinct ks \<and>
         set ks = {''fr|5'', ''de|11''} \<and>
         sorted_wrt (\<lambda>a b. threadPosition (heap mixIndexed) [0, 1, 2, 3] a
                          < threadPosition (heap mixIndexed) [0, 1, 2, 3] b) ks)"
proof -
  let ?e = "exampleEnv (JNum 8) False False [''de|11'', ''fr|5'', ''fr|7'']"
  have t: "map (\<lambda>r. threadId (heap mixIndexed r)) [0, 1, 2, 3] =
     [Some ''fr|5'', Some ''de|11'', Some ''fr|5'', Some ''fr|5'']"
    by (simp add: mixIndexed_threadIds)
  have m: "mixTopicDivs ''fr|5'' = Some (TopicDiv ''fr|5'')"
    "mixTopicDivs ''de|11'' = Some (TopicDiv ''de|11'')"
    by (simp_all add: mixTopicDivs_def)
  have hyp: "\<forall>r\<in>set [0, 1, 2, 3]. \<forall>k. threadId (heap mixIndexed r) = Some k \<longrightarrow>
               mixTopicDivs k = Some (TopicDiv k)"
    using m by (simp add: mixIndexed_threadIds)
  have cover: "\<forall>k\<in>set (assembledIds (heap mixIndexed) [0, 1, 2, 3]
                  (getFilteredThreadIds ?e (threadPostsOf mixIndexed) True)).
                 mixTopicDivs k = Some (TopicDiv k)"
    unfolding exampleEnv_filter mix_ids using m by simp
  from filterAndAssemble_eq [OF cover, of True emptyDom]
  have direct: "\<exists>d'. filterAndAssembleForumThreads ?e mixIndexed [0, 1, 2, 3] mixTopicDivs True True
            emptyDom = Inr d' \<and>
         children d' Fragment = [CountEl, TopicDiv ''fr|5'', TopicDiv ''de|11''] \<and>
         countText d' = Some ''2 threads''"
    unfolding exampleEnv_filter mix_ids
    by (auto simp: digitsOf.simps digitChars_def)
  have s: "{k. k \<in> set (getFilteredThreadIds ?e (threadPostsOf mixIndexed) True) \<and>
              (\<exists>r\<in>set [0, 1, 2, 3]. threadId (heap mixIndexed r) = Some k)} = {''fr|5'', ''de|11''}"
    unfolding exampleEnv_filter by (auto simp: mixIndexed_threadIds)
  from filterAndAssembleForumThreads_order [OF hyp, of ?e True True emptyDom]
  have inst: "\<exists>d' ks. filterAndAssembleForumThreads ?e mixIndexed [0, 1, 2, 3] mixTopicDivs True True
            emptyDom = Inr d' \<and>
         children d' Fragment = [CountEl] @ map TopicDiv ks \<and> distinct ks \<and>
         set ks = {''fr|5'', ''de|11''} \<and>
         sorted_wrt (\<lambda>a b. threadPosition (heap mixIndexed) [0, 1, 2, 3] a
                          < threadPosition (heap mixIndexed) [0, 1, 2, 3] b) ks"
    unfolding s by simp
  show ?thesis
    by (intro conjI mixIndexed_eq t m direct inst)
qed

end
